theory Spec2Isabelle
  imports Complex_Main "HOL-Library.Monad_Syntax"
begin

section \<open>The expression backend of mjxgui\<close>

text \<open>
  The editor keeps one tree of JavaScript objects (an Expression holding Components, each
  Component holding Blocks, each Block holding Components again) and a Cursor that points
  into it. Components and Blocks refer to each other by reference in both directions
  (\<open>blocks\<close>/\<open>children\<close> downwards, \<open>parent\<close> upwards); the cursor compares
  references with \<open>===\<close> and \<open>indexOf\<close>. The objects therefore live in an explicit
  store: a list of objects in which the address of an object is its index and \<open>new\<close>
  appends. Nothing is ever freed, as in the JavaScript heap.

  A function that can throw a TypeError (reading a property of \<open>undefined\<close> or
  \<open>null\<close>) returns an option, \<open>None\<close> being the throw.
\<close>

subsection \<open>Values\<close>

type_synonym ref = nat

text \<open>What a field or an array slot can hold: \<open>null\<close>, \<open>undefined\<close>, a string, or a
  reference to a Block or Component object.\<close>

datatype jsval = Null | Undefined | Str string | Ref ref

text \<open>The backslash cannot be written inside a string literal.\<close>

definition bsl :: string where
  "bsl = [CHR 0x5C]"

subsection \<open>The component classes\<close>

text \<open>
  Every concrete class extends one of the bases \<open>OneBlockComponent\<close>,
  \<open>TwoBlockComponent\<close>, \<open>ThreeBlockComponent\<close> or \<open>Component\<close> itself. The
  base class constructor decides how many Blocks the object owns; the class only overrides
  \<open>toLatex\<close>. A class built with \<open>latexData\<close> carries that string.
\<close>

datatype one_block =
    TemplateOneBlockComponent string
  | FrameBox
  | Degree
  | Sqrt
  | BracketR
  | BracketRL
  | BracketRR
  | BracketS
  | BracketSL
  | BracketSR
  | BracketC
  | BracketCL
  | BracketCR
  | BracketA
  | BracketAL
  | BracketAR
  | BracketV
  | BracketVL
  | BracketVR
  | BracketP
  | OversetLeftRightArrow
  | UnderRightArrow
  | UnderLeftArrow
  | UndersetLeftRightArrow
  | UnderHarpoons
  | OverHarpoons
  | RFloor

datatype two_block =
    TemplateTwoBlockComponent string
  | TemplateTwoBlockContinuousComponent string
  | TrigonometricTwoBlockComponent string
  | TemplateUndersetComponent string
  | Limit
  | Subscript
  | SubscriptLeft
  | Superscript
  | SuperscriptLeft
  | NthRoot
  | Pipe
  | OversetOverbrace
  | UndersetUnderbrace
  | XRightArrow
  | XLeftArrow
  | XLeftRightArrow
  | Harpoons
  | LArray
  | Divide

datatype three_block =
    TemplateThreeBlockComponent string
  | TemplateOversetUndersetComponent string
  | SubSupRight
  | SubSupLeft
  | OverUnder

fun one_block_toLatex :: "one_block \<Rightarrow> string \<Rightarrow>  string" where
  "one_block_toLatex (TemplateOneBlockComponent latexData) b0 =
     bsl @ latexData @ ''{'' @ b0 @ ''}''"
| "one_block_toLatex FrameBox b0 =
     bsl @ ''boxed{'' @ b0 @ ''}''"
| "one_block_toLatex Degree b0 =
     ''{'' @ b0 @ ''}^{'' @ bsl @ ''circ}''"
| "one_block_toLatex Sqrt b0 =
     bsl @ ''sqrt{'' @ b0 @ ''}''"
| "one_block_toLatex BracketR b0 =
     bsl @ ''left({'' @ b0 @ ''}'' @ bsl @ ''right)''"
| "one_block_toLatex BracketRL b0 =
     bsl @ ''left({'' @ b0 @ ''}'' @ bsl @ ''right.''"
| "one_block_toLatex BracketRR b0 =
     bsl @ ''left.{'' @ b0 @ ''}'' @ bsl @ ''right)''"
| "one_block_toLatex BracketS b0 =
     bsl @ ''left[{'' @ b0 @ ''}'' @ bsl @ ''right]''"
| "one_block_toLatex BracketSL b0 =
     bsl @ ''left[{'' @ b0 @ ''}'' @ bsl @ ''right.''"
| "one_block_toLatex BracketSR b0 =
     bsl @ ''left.{'' @ b0 @ ''}'' @ bsl @ ''right]''"
| "one_block_toLatex BracketC b0 =
     bsl @ ''left'' @ bsl @ ''{{'' @ b0 @ ''}'' @ bsl @ ''right'' @ bsl @ ''}''"
| "one_block_toLatex BracketCL b0 =
     bsl @ ''left'' @ bsl @ ''{{'' @ b0 @ ''}'' @ bsl @ ''right.''"
| "one_block_toLatex BracketCR b0 =
     bsl @ ''left.{'' @ b0 @ ''}'' @ bsl @ ''right'' @ bsl @ ''}''"
| "one_block_toLatex BracketA b0 =
     bsl @ ''left'' @ bsl @ ''langle{'' @ b0 @ ''}'' @ bsl @ ''right'' @ bsl @ ''rangle''"
| "one_block_toLatex BracketAL b0 =
     bsl @ ''left'' @ bsl @ ''langle{'' @ b0 @ ''}'' @ bsl @ ''right.''"
| "one_block_toLatex BracketAR b0 =
     bsl @ ''left.{'' @ b0 @ ''}'' @ bsl @ ''right'' @ bsl @ ''rangle''"
| "one_block_toLatex BracketV b0 =
     bsl @ ''left|{'' @ b0 @ ''}'' @ bsl @ ''right|''"
| "one_block_toLatex BracketVL b0 =
     bsl @ ''left|{'' @ b0 @ ''}'' @ bsl @ ''right.''"
| "one_block_toLatex BracketVR b0 =
     bsl @ ''left.{'' @ b0 @ ''}'' @ bsl @ ''right|''"
| "one_block_toLatex BracketP b0 =
     bsl @ ''left'' @ bsl @ ''|{'' @ b0 @ ''}'' @ bsl @ ''right'' @ bsl @ ''|''"
| "one_block_toLatex OversetLeftRightArrow b0 =
     bsl @ ''overset{'' @ b0 @ ''}{'' @ bsl @ ''longleftrightarrow}''"
| "one_block_toLatex UnderRightArrow b0 =
     bsl @ ''underset{'' @ b0 @ ''}{'' @ bsl @ ''longrightarrow}''"
| "one_block_toLatex UnderLeftArrow b0 =
     bsl @ ''underset{'' @ b0 @ ''}{'' @ bsl @ ''longleftarrow}''"
| "one_block_toLatex UndersetLeftRightArrow b0 =
     bsl @ ''underset{'' @ b0 @ ''}{'' @ bsl @ ''longleftrightarrow}''"
| "one_block_toLatex UnderHarpoons b0 =
     bsl @ ''underset{'' @ b0 @ ''}'' @ bsl @ ''rightleftharpoons''"
| "one_block_toLatex OverHarpoons b0 =
     bsl @ ''overset{'' @ b0 @ ''}'' @ bsl @ ''rightleftharpoons''"
| "one_block_toLatex RFloor b0 =
     ''{'' @ b0 @ ''}'' @ bsl @ ''rfloor''"

fun two_block_toLatex :: "two_block \<Rightarrow> string \<Rightarrow> string \<Rightarrow>  string" where
  "two_block_toLatex (TemplateTwoBlockComponent latexData) b0 b1 =
     bsl @ latexData @ ''_{'' @ b0 @ ''}{'' @ b1 @ ''}''"
| "two_block_toLatex (TemplateTwoBlockContinuousComponent latexData) b0 b1 =
     bsl @ latexData @ ''{'' @ b0 @ ''}{'' @ b1 @ ''}''"
| "two_block_toLatex (TrigonometricTwoBlockComponent latexData) b0 b1 =
     bsl @ latexData @ ''^{'' @ b0 @ ''}{'' @ b1 @ ''}''"
| "two_block_toLatex (TemplateUndersetComponent latexData) b0 b1 =
     bsl @ ''displaystyle'' @ bsl @ latexData @ bsl @ ''underset{'' @ b0 @ ''}{'' @ b1 @ ''}''"
| "two_block_toLatex Limit b0 b1 =
     bsl @ ''lim_{'' @ b0 @ ''}{'' @ b1 @ ''}''"
| "two_block_toLatex Subscript b0 b1 =
     ''{'' @ b0 @ ''}_{'' @ b1 @ ''}''"
| "two_block_toLatex SubscriptLeft b0 b1 =
     ''_{'' @ b0 @ ''}{'' @ b1 @ ''}''"
| "two_block_toLatex Superscript b0 b1 =
     ''{'' @ b0 @ ''}^{'' @ b1 @ ''}''"
| "two_block_toLatex SuperscriptLeft b0 b1 =
     ''^{'' @ b0 @ ''}{'' @ b1 @ ''}''"
| "two_block_toLatex NthRoot b0 b1 =
     bsl @ ''sqrt['' @ b0 @ '']{'' @ b1 @ ''}''"
| "two_block_toLatex Pipe b0 b1 =
     bsl @ ''left.{'' @ b0 @ ''}'' @ bsl @ ''right|{'' @ b1 @ ''}''"
| "two_block_toLatex OversetOverbrace b0 b1 =
     bsl @ ''overset{'' @ b0 @ ''}{'' @ bsl @ ''overbrace{'' @ b1 @ ''}}''"
| "two_block_toLatex UndersetUnderbrace b0 b1 =
     bsl @ ''underset{'' @ b0 @ ''}{'' @ bsl @ ''underbrace{'' @ b1 @ ''}}''"
| "two_block_toLatex XRightArrow b0 b1 =
     bsl @ ''xrightarrow['' @ b0 @ '']{'' @ b1 @ ''}''"
| "two_block_toLatex XLeftArrow b0 b1 =
     bsl @ ''xleftarrow['' @ b0 @ '']{'' @ b1 @ ''}''"
| "two_block_toLatex XLeftRightArrow b0 b1 =
     bsl @ ''underset{'' @ b0 @ ''}{'' @ bsl @ ''stackrel{'' @ b1 @ ''}{'' @ bsl @ ''longleftrightarrow}}''"
| "two_block_toLatex Harpoons b0 b1 =
     bsl @ ''underset{'' @ b0 @ ''}{'' @ bsl @ ''stackrel{'' @ b1 @ ''}{'' @ bsl @ ''rightleftharpoons}}''"
| "two_block_toLatex LArray b0 b1 =
     bsl @ ''begin{array}{c}{'' @ b0 @ ''}'' @ bsl @ bsl @ ''{'' @ b1 @ ''}'' @ bsl @ ''end{array}''"
| "two_block_toLatex Divide b0 b1 =
     ''^{'' @ b0 @ ''}/_{'' @ b1 @ ''}''"

fun three_block_toLatex :: "three_block \<Rightarrow> string \<Rightarrow> string \<Rightarrow> string \<Rightarrow>  string" where
  "three_block_toLatex (TemplateThreeBlockComponent latexData) b0 b1 b2 =
     bsl @ latexData @ ''_{'' @ b0 @ ''}^{'' @ b1 @ ''}{'' @ b2 @ ''}''"
| "three_block_toLatex (TemplateOversetUndersetComponent latexData) b0 b1 b2 =
     bsl @ ''displaystyle'' @ bsl @ latexData @ bsl @ ''overset{'' @ b0 @ ''}{'' @ bsl @ ''underset{'' @ b1 @ ''}{'' @ b2 @ ''}}''"
| "three_block_toLatex SubSupRight b0 b1 b2 =
     ''{'' @ b0 @ ''}_{'' @ b1 @ ''}^{'' @ b2 @ ''}''"
| "three_block_toLatex SubSupLeft b0 b1 b2 =
     ''^{'' @ b0 @ ''}_{'' @ b1 @ ''}{'' @ b2 @ ''}''"
| "three_block_toLatex OverUnder b0 b1 b2 =
     bsl @ ''overset{'' @ b0 @ ''}{'' @ bsl @ ''underset{'' @ b1 @ ''}{'' @ b2 @ ''}}''"
text \<open>\<open>MatrixComponent\<close> carries the two numbers \<open>parseInt\<close> reads from its
  \<open>latexData\<close> ("RxC"); the markup that supplies this string is not part of the
  sources, so the two dimensions are parameters.\<close>

datatype cls =
    TextComponent
  | MJXGUISymbol string
  | MatrixComponent nat nat
  | OneBlockComponent one_block
  | TwoBlockComponent two_block
  | ThreeBlockComponent three_block

text \<open>The number of Blocks the constructor of a class creates.\<close>

fun arity :: "cls \<Rightarrow> nat" where
  "arity TextComponent = 1"
| "arity (MJXGUISymbol latexData) = 0"
| "arity (MatrixComponent rows cols) = rows * cols"
| "arity (OneBlockComponent k) = 1"
| "arity (TwoBlockComponent k) = 2"
| "arity (ThreeBlockComponent k) = 3"

text \<open>\<open>Colors.getNew()\<close> draws a colour at random; the colour drawn is an input of the
  constructor here. \<open>Component\<close> sets \<open>color = null\<close>; the one, two and three block
  bases and the matrix overwrite it, \<open>OneBlockComponent\<close> only when the object is not a
  \<open>FrameBox\<close>.\<close>

fun initial_color :: "cls \<Rightarrow> string \<Rightarrow> string option" where
  "initial_color TextComponent col = None"
| "initial_color (MJXGUISymbol latexData) col = None"
| "initial_color (MatrixComponent rows cols) col = Some col"
| "initial_color (OneBlockComponent k) col = (if k = FrameBox then None else Some col)"
| "initial_color (TwoBlockComponent k) col = Some col"
| "initial_color (ThreeBlockComponent k) col = Some col"

text \<open>\<open>c instanceof TextComponent || c instanceof MJXGUISymbol\<close>, on the class.\<close>

fun leaf_cls :: "cls \<Rightarrow> bool" where
  "leaf_cls TextComponent = True"
| "leaf_cls (MJXGUISymbol latexData) = True"
| "leaf_cls _ = False"

subsection \<open>The store\<close>

datatype obj =
    Block (children: "jsval list") (parent: jsval)
  | Component (cls: cls) (blocks: "jsval list") (parent: jsval) (color: "string option")

type_synonym heap = "obj list"

definition deref :: "heap \<Rightarrow> ref \<Rightarrow> obj option" where
  "deref H r = (if r < length H then Some (H ! r) else None)"

text \<open>\<open>v.children\<close>, \<open>v.blocks\<close> and \<open>v.parent\<close> for a value \<open>v\<close>. The source
  always goes on to read a property of the first two (\<open>.length\<close>, an index,
  \<open>.indexOf\<close>, \<open>.splice\<close>), which throws when the object has no such field, so a
  missing field is the throw already.\<close>

definition children_of :: "heap \<Rightarrow> jsval \<Rightarrow> jsval list option" where
  "children_of H v =
     (case v of
        Ref r \<Rightarrow> (case deref H r of Some (Block chs p) \<Rightarrow> Some chs | _ \<Rightarrow> None)
      | _ \<Rightarrow> None)"

definition blocks_of :: "heap \<Rightarrow> jsval \<Rightarrow> jsval list option" where
  "blocks_of H v =
     (case v of
        Ref r \<Rightarrow> (case deref H r of Some (Component k bs p col) \<Rightarrow> Some bs | _ \<Rightarrow> None)
      | _ \<Rightarrow> None)"

definition parent_of :: "heap \<Rightarrow> jsval \<Rightarrow> jsval option" where
  "parent_of H v =
     (case v of
        Ref r \<Rightarrow> map_option parent (deref H r)
      | Str s \<Rightarrow> Some Undefined
      | _ \<Rightarrow> None)"

text \<open>\<open>v instanceof TextComponent || v instanceof MJXGUISymbol\<close>: false for
  \<open>undefined\<close>, \<open>null\<close>, strings and Blocks.\<close>

definition is_leaf :: "heap \<Rightarrow> jsval \<Rightarrow> bool" where
  "is_leaf H v =
     (case v of
        Ref r \<Rightarrow> (case deref H r of Some (Component k bs p col) \<Rightarrow> leaf_cls k | _ \<Rightarrow> False)
      | _ \<Rightarrow> False)"

subsection \<open>Arrays\<close>

text \<open>\<open>xs[i]\<close> is \<open>undefined\<close> outside the array, and also when the index is not a
  whole number (the cursor indexes with \<open>this.position\<close>, a multiple of one half).\<close>

definition nth_js :: "jsval list \<Rightarrow> int \<Rightarrow> jsval" where
  "nth_js xs i = (if 0 \<le> i \<and> i < int (length xs) then xs ! nat i else Undefined)"

definition nth_num :: "jsval list \<Rightarrow> rat \<Rightarrow> jsval" where
  "nth_num xs q = (if of_int \<lfloor>q\<rfloor> = q then nth_js xs \<lfloor>q\<rfloor> else Undefined)"

text \<open>\<open>xs.indexOf(v)\<close>: the first index holding \<open>v\<close>, or -1.\<close>

fun indexOf :: "jsval list \<Rightarrow> jsval \<Rightarrow> int" where
  "indexOf [] v = -1"
| "indexOf (x # xs) v = (if x = v then 0 else (let i = indexOf xs v in if i < 0 then i else i + 1))"

text \<open>\<open>xs.splice(start, 0, v)\<close> and \<open>xs.splice(start, 1)\<close>. A negative start counts
  from the end, and the start is clamped into the array.\<close>

definition splice_start :: "int \<Rightarrow> nat \<Rightarrow> nat" where
  "splice_start start len =
     (if start < 0 then nat (max (int len + start) 0) else min (nat start) len)"

definition splice_insert :: "int \<Rightarrow> 'a \<Rightarrow> 'a list \<Rightarrow> 'a list" where
  "splice_insert start v xs =
     (let k = splice_start start (length xs) in take k xs @ [v] @ drop k xs)"

definition splice_remove :: "int \<Rightarrow> 'a list \<Rightarrow> 'a list" where
  "splice_remove start xs =
     (let k = splice_start start (length xs) in take k xs @ drop (Suc k) xs)"

subsection \<open>Strings\<close>

text \<open>A string is a list of code units; the model has the code units below 256.
  \<open>String.prototype.trim\<close> strips the white space and the line terminators of the
  language from both ends: U+0009 to U+000D, U+0020, U+00A0, U+1680, U+2000 to U+200A,
  U+2028, U+2029, U+202F, U+205F, U+3000 and U+FEFF.\<close>

definition white_space_code :: "nat \<Rightarrow> bool" where
  "white_space_code u =
     (u \<in> set [0x09, 0x0A, 0x0B, 0x0C, 0x0D, 0x20, 0xA0, 0x1680, 0x2028, 0x2029, 0x202F,
                 0x205F, 0x3000, 0xFEFF]
      \<or> (0x2000 \<le> u \<and> u \<le> 0x200A))"

definition is_space :: "char \<Rightarrow> bool" where
  "is_space c = white_space_code (of_char c)"

definition trim :: "string \<Rightarrow> string" where
  "trim s = rev (dropWhile is_space (rev (dropWhile is_space s)))"

subsection \<open>Markup\<close>

text \<open>\<open>Block.toLatex\<close>, \<open>Component.toLatex\<close> and its overrides call each other through
  the references of the store, so the recursion is not structural: \<open>toLatex\<close> below takes
  the nesting depth it may descend as fuel and returns \<open>None\<close> when the fuel runs out
  (and when the source throws).\<close>

text \<open>The text \<open>${this.parent.color}\<close> of the placeholder of an empty Block.\<close>

definition color_text :: "heap \<Rightarrow> jsval \<Rightarrow> string option" where
  "color_text H v =
     (case v of
        Ref q \<Rightarrow>
          (case deref H q of
             Some (Component k bs p col) \<Rightarrow> Some (case col of None \<Rightarrow> ''null'' | Some c \<Rightarrow> c)
           | Some (Block chs p) \<Rightarrow> Some ''undefined''
           | None \<Rightarrow> None)
      | Str s \<Rightarrow> Some ''undefined''
      | _ \<Rightarrow> None)"

definition placeholder :: "string \<Rightarrow> string" where
  "placeholder col = bsl @ ''color{'' @ col @ ''}{'' @ bsl @ ''boxed{&#8200;}}''"

text \<open>The loop of \<open>Block.toLatex\<close> over \<open>this.children\<close>; \<open>rd\<close> is \<open>c.toLatex()\<close>.\<close>

fun Block_loop :: "(jsval \<Rightarrow> string option) \<Rightarrow> jsval list \<Rightarrow> string \<Rightarrow> string option" where
  "Block_loop rd [] latex = Some latex"
| "Block_loop rd (Str c # cs) latex = Block_loop rd cs (latex @ c)"
| "Block_loop rd (c # cs) latex =
     (case rd c of None \<Rightarrow> None | Some l \<Rightarrow> Block_loop rd cs (latex @ l @ ''''))"


text \<open>The two loops of \<open>MatrixComponent.toLatex\<close>; \<open>bl k\<close> is
  \<open>this.blocks[k].toLatex()\<close>.\<close>

function Matrix_cols ::
  "(int \<Rightarrow> string option) \<Rightarrow> nat \<Rightarrow> nat \<Rightarrow> nat \<Rightarrow> nat \<Rightarrow> string \<Rightarrow> string option" where
  "Matrix_cols bl rows cols i j output =
     (if j < cols then
        (case bl (int ((i * cols) + j)) of
           None \<Rightarrow> None
         | Some l \<Rightarrow>
             Matrix_cols bl rows cols i (Suc j)
               (if int j = int cols - 1 then
                  (if int i \<noteq> int rows - 1 then (output @ l) @ '' '' @ bsl @ bsl @ '' ''
                   else output @ l)
                else (output @ l) @ '' & ''))
      else Some output)"
  by pat_completeness auto
termination
  by (relation "measure (\<lambda>(bl, rows, cols, i, j, output). cols - j)") auto

function Matrix_rows ::
  "(int \<Rightarrow> string option) \<Rightarrow> nat \<Rightarrow> nat \<Rightarrow> nat \<Rightarrow> string \<Rightarrow> string option" where
  "Matrix_rows bl rows cols i output =
     (if i < rows then
        (case Matrix_cols bl rows cols i 0 output of
           None \<Rightarrow> None
         | Some output' \<Rightarrow> Matrix_rows bl rows cols (Suc i) output')
      else Some output)"
  by pat_completeness auto
termination
  by (relation "measure (\<lambda>(bl, rows, cols, i, output). rows - i)") auto

declare Matrix_cols.simps [simp del] Matrix_rows.simps [simp del]

definition Matrix_toLatex :: "(int \<Rightarrow> string option) \<Rightarrow> nat \<Rightarrow> nat \<Rightarrow> string option" where
  "Matrix_toLatex bl rows cols =
     (case Matrix_rows bl rows cols 0 (bsl @ ''begin{matrix}'') of
        None \<Rightarrow> None
      | Some output \<Rightarrow> Some (output @ bsl @ ''end{matrix}''))"

text \<open>The \<open>toLatex\<close> of each class, given \<open>bl k\<close> for \<open>this.blocks[k].toLatex()\<close>.\<close>

fun Component_toLatex :: "cls \<Rightarrow> (int \<Rightarrow> string option) \<Rightarrow> string option" where
  "Component_toLatex TextComponent bl = bl 0"
| "Component_toLatex (MJXGUISymbol latexData) bl = Some (latexData @ '' '')"
| "Component_toLatex (MatrixComponent rows cols) bl = Matrix_toLatex bl rows cols"
| "Component_toLatex (OneBlockComponent k) bl =
     do { b0 \<leftarrow> bl 0; Some (one_block_toLatex k b0) }"
| "Component_toLatex (TwoBlockComponent k) bl =
     do { b0 \<leftarrow> bl 0; b1 \<leftarrow> bl 1; Some (two_block_toLatex k b0 b1) }"
| "Component_toLatex (ThreeBlockComponent k) bl =
     do { b0 \<leftarrow> bl 0; b1 \<leftarrow> bl 1; b2 \<leftarrow> bl 2; Some (three_block_toLatex k b0 b1 b2) }"

text \<open>\<open>v.toLatex()\<close>, dispatched on the object \<open>v\<close> refers to.\<close>

fun toLatex :: "nat \<Rightarrow> heap \<Rightarrow> jsval \<Rightarrow> string option" where
  "toLatex 0 H v = None"
| "toLatex (Suc n) H v =
     (case v of
        Ref r \<Rightarrow>
          (case deref H r of
             None \<Rightarrow> None
           | Some (Block chs p) \<Rightarrow>
               (if length chs = 0 then map_option placeholder (color_text H p)
                else map_option trim (Block_loop (toLatex n H) chs ''''))
           | Some (Component k bs p col) \<Rightarrow>
               Component_toLatex k (\<lambda>i. toLatex n H (nth_js bs i)))
      | _ \<Rightarrow> None)"


subsection \<open>Constructors and the methods of the tree\<close>

text \<open>\<open>new K(parent, ...)\<close>: the new Component and its \<open>arity K\<close> empty Blocks, each Block
  with \<open>parent\<close> set to the new Component. The Component takes the next free address and its
  Blocks the addresses after it.\<close>

definition new_Component :: "cls \<Rightarrow> jsval \<Rightarrow> string \<Rightarrow> heap \<Rightarrow> jsval \<times> heap" where
  "new_Component k p col H =
     (let c = length H in
      (Ref c,
       H @ [Component k (map (\<lambda>i. Ref (Suc c + i)) [0..<arity k]) p (initial_color k col)]
         @ replicate (arity k) (Block [] (Ref c))))"

definition Expression_add :: "jsval list \<Rightarrow> jsval \<Rightarrow> int \<Rightarrow> jsval list" where
  "Expression_add cs c position = splice_insert position c cs"

definition Expression_remove :: "jsval list \<Rightarrow> int \<Rightarrow> jsval list" where
  "Expression_remove cs position = splice_remove position cs"

definition Block_addChild :: "heap \<Rightarrow> jsval \<Rightarrow> jsval \<Rightarrow> int \<Rightarrow> heap option" where
  "Block_addChild H b c position =
     (case b of
        Ref r \<Rightarrow>
          (case deref H r of
             Some (Block chs p) \<Rightarrow> Some (H[r := Block (splice_insert position c chs) p])
           | _ \<Rightarrow> None)
      | _ \<Rightarrow> None)"

definition Block_removeChild :: "heap \<Rightarrow> jsval \<Rightarrow> int \<Rightarrow> heap option" where
  "Block_removeChild H b position =
     (case b of
        Ref r \<Rightarrow>
          (case deref H r of
             Some (Block chs p) \<Rightarrow> Some (H[r := Block (splice_remove position chs) p])
           | _ \<Rightarrow> None)
      | _ \<Rightarrow> None)"



text \<open>The loop of \<open>Component.isEmpty\<close> over \<open>this.blocks\<close>.\<close>

fun isEmpty_loop :: "heap \<Rightarrow> jsval list \<Rightarrow> bool option" where
  "isEmpty_loop H [] = Some True"
| "isEmpty_loop H (b # bs) =
     (case children_of H b of
        None \<Rightarrow> None
      | Some chs \<Rightarrow> if length chs \<noteq> 0 then Some False else isEmpty_loop H bs)"

definition Component_isEmpty :: "heap \<Rightarrow> jsval \<Rightarrow> bool option" where
  "Component_isEmpty H c = (case blocks_of H c of None \<Rightarrow> None | Some bs \<Rightarrow> isEmpty_loop H bs)"

subsection \<open>The cursor\<close>

text \<open>The fields of \<open>Cursor\<close>, with the store and the \<open>components\<close> array of its
  Expression. \<open>position\<close> and \<open>child\<close> are JavaScript numbers that only ever hold
  multiples of one half, which doubles represent exactly; they are rationals here.\<close>

record cursor =
  heap :: heap
  components :: "jsval list"
  block :: jsval
  component :: jsval
  child :: rat
  position :: rat
  latex :: string

text \<open>\<open>new Cursor(new Expression(), display)\<close>.\<close>

definition Cursor_new :: cursor where
  "Cursor_new =
     \<lparr>heap = [], components = [], block = Null, component = Null,
      child = - 1 / 2, position = - 1 / 2, latex = ''''\<rparr>"

text \<open>\<open>new TextComponent(this.block)\<close> followed by \<open>_.blocks[0].addChild(text)\<close>, as
  \<open>addText\<close> and \<open>toDisplayLatex\<close> do.\<close>

definition new_text :: "jsval \<Rightarrow> string \<Rightarrow> heap \<Rightarrow> (jsval \<times> heap) option" where
  "new_text p text H =
     (let (t, H1) = new_Component TextComponent p [] H in
      do {
        bs \<leftarrow> blocks_of H1 t;
        chs \<leftarrow> children_of H1 (nth_js bs 0);
        H2 \<leftarrow> Block_addChild H1 (nth_js bs 0) (Str text) (int (length chs));
        Some (t, H2)
      })"

definition addText :: "cursor \<Rightarrow> string \<Rightarrow> cursor option" where
  "addText s text =
     (if block s = Null then
        do {
          (t, H) \<leftarrow> new_text (block s) text (heap s);
          Some (s\<lparr>heap := H,
                  components := Expression_add (components s) t \<lceil>position s\<rceil>,
                  child := - 1 / 2,
                  position := position s + 1\<rparr>)
        }
      else
        do {
          (t, H) \<leftarrow> new_text (block s) text (heap s);
          H' \<leftarrow> Block_addChild H (block s) t \<lceil>child s\<rceil>;
          Some (s\<lparr>heap := H', child := child s + 1\<rparr>)
        })"

definition addComponent :: "cursor \<Rightarrow> jsval \<Rightarrow> cursor option" where
  "addComponent s c =
     (if block s = Null then
        (let cs = Expression_add (components s) c \<lceil>position s\<rceil>;
             pos = of_int \<lceil>position s\<rceil>
         in if is_leaf (heap s) c then
              Some (s\<lparr>components := cs, block := Null, component := Null,
                      position := pos + 1 / 2, child := - 1 / 2\<rparr>)
            else
              do {
                bs \<leftarrow> blocks_of (heap s) c;
                Some (s\<lparr>components := cs, position := pos, block := nth_js bs 0,
                        component := c, child := - 1 / 2\<rparr>)
              })
      else
        do {
          H \<leftarrow> Block_addChild (heap s) (block s) c \<lceil>child s\<rceil>;
          if is_leaf H c then Some (s\<lparr>heap := H, child := child s + 1\<rparr>)
          else
            do {
              bs \<leftarrow> blocks_of H c;
              Some (s\<lparr>heap := H, component := c, block := nth_js bs 0, child := - 1 / 2\<rparr>)
            }
        })"

text \<open>The search loops of \<open>removeComponent\<close>: the first index \<open>i\<close> with
  \<open>xs[i] === v\<close>, where the loop removes and breaks.\<close>

fun first_index :: "jsval list \<Rightarrow> jsval \<Rightarrow> nat option" where
  "first_index [] v = None"
| "first_index (x # xs) v = (if x = v then Some 0 else map_option Suc (first_index xs v))"

text \<open>The two branches of \<open>removeComponent\<close> for a cursor inside a Block.\<close>

definition removeComponent_inside :: "cursor \<Rightarrow> cursor option" where
  "removeComponent_inside s =
     do {
       p \<leftarrow> parent_of (heap s) (component s);
       if p = Null then
         Some (s\<lparr>components :=
                   (case first_index (components s) (component s) of
                      None \<Rightarrow> components s
                    | Some i \<Rightarrow> Expression_remove (components s) (int i)),
                 position := position s - 1 / 2,
                 component := Null, block := Null, child := - 1 / 2\<rparr>)
       else
         do {
           chs \<leftarrow> children_of (heap s) p;
           pp \<leftarrow> parent_of (heap s) p;
           (case first_index chs (component s) of
              None \<Rightarrow> Some (s\<lparr>block := p, component := pp\<rparr>)
            | Some i \<Rightarrow>
                do {
                  H \<leftarrow> Block_removeChild (heap s) p (int i);
                  Some (s\<lparr>heap := H, child := of_nat i - 1 / 2, block := p, component := pp\<rparr>)
                })
         }
     }"

text \<open>\<open>removeComponent\<close>. At top level it moves the cursor into the leaf on its left and
  calls itself. The Block it moves into is \<open>prevComponent.blocks[0]\<close>: a Block, or
  \<open>undefined\<close> for a symbol, so the inner call takes one of the branches above. (Were the
  slot \<open>null\<close> the source would call itself without end; that is \<open>None\<close> here.)\<close>

definition removeComponent :: "cursor \<Rightarrow> cursor option" where
  "removeComponent s =
     (if block s = Null then
        (let prevComponent = nth_js (components s) \<lfloor>position s\<rfloor> in
         if is_leaf (heap s) prevComponent then
           do {
             bs \<leftarrow> blocks_of (heap s) prevComponent;
             if nth_js bs 0 = Null then None
             else removeComponent_inside
                    (s\<lparr>position := of_int \<lfloor>position s\<rfloor>, component := prevComponent,
                       block := nth_js bs 0, child := - 1 / 2\<rparr>)
           }
         else Some s)
      else removeComponent_inside s)"

definition seekRight :: "cursor \<Rightarrow> cursor option" where
  "seekRight s =
     (let maxPos = of_nat (length (components s)) - 1 / 2 in
      if position s \<ge> maxPos then Some s
      else if block s = Null then
        (let pos = position s + 1 / 2 in
         if is_leaf (heap s) (nth_num (components s) pos) then
           Some (s\<lparr>position := pos + 1 / 2, child := - 1 / 2, block := Null, component := Null\<rparr>)
         else
           do {
             bs \<leftarrow> blocks_of (heap s) (nth_num (components s) pos);
             Some (s\<lparr>position := pos, component := nth_num (components s) pos,
                     block := nth_js bs 0, child := - 1 / 2\<rparr>)
           })
      else
        do {
          chs \<leftarrow> children_of (heap s) (block s);
          if child s = of_nat (length chs) - 1 / 2 then
            do {
              bs \<leftarrow> blocks_of (heap s) (component s);
              let pos = indexOf bs (block s);
              if pos = int (length bs) - 1 then
                do {
                  p \<leftarrow> parent_of (heap s) (component s);
                  if p = Null then
                    Some (s\<lparr>component := Null, block := Null, child := - 1 / 2,
                            position := position s + 1 / 2\<rparr>)
                  else
                    do {
                      pchs \<leftarrow> children_of (heap s) p;
                      pp \<leftarrow> parent_of (heap s) p;
                      Some (s\<lparr>block := p,
                              child := of_int (indexOf pchs (component s)) + 1 / 2,
                              component := pp\<rparr>)
                    }
                }
              else Some (s\<lparr>block := nth_js bs (pos + 1), child := - 1 / 2\<rparr>)
            }
          else
            (let nextComponent = nth_js chs \<lceil>child s\<rceil> in
             if is_leaf (heap s) nextComponent then Some (s\<lparr>child := child s + 1\<rparr>)
             else
               do {
                 bs \<leftarrow> blocks_of (heap s) nextComponent;
                 Some (s\<lparr>component := nextComponent, block := nth_js bs 0, child := - 1 / 2\<rparr>)
               })
        })"

definition seekLeft :: "cursor \<Rightarrow> cursor option" where
  "seekLeft s =
     (if position s \<le> - 1 / 2 then Some s
      else if block s = Null then
        (let pos = position s - 1 / 2 in
         if is_leaf (heap s) (nth_num (components s) pos) then
           Some (s\<lparr>position := pos - 1 / 2, child := - 1 / 2, block := Null, component := Null\<rparr>)
         else
           do {
             bs \<leftarrow> blocks_of (heap s) (nth_num (components s) pos);
             chs \<leftarrow> children_of (heap s) (nth_js bs (int (length bs) - 1));
             Some (s\<lparr>position := pos, component := nth_num (components s) pos,
                     block := nth_js bs (int (length bs) - 1),
                     child := of_nat (length chs) - 1 / 2\<rparr>)
           })
      else
        if child s = - 1 / 2 then
          do {
            bs \<leftarrow> blocks_of (heap s) (component s);
            let pos = indexOf bs (block s);
            if pos = 0 then
              do {
                p \<leftarrow> parent_of (heap s) (component s);
                if p = Null then
                  Some (s\<lparr>component := Null, block := Null, child := - 1 / 2,
                          position := position s - 1 / 2\<rparr>)
                else
                  do {
                    pchs \<leftarrow> children_of (heap s) p;
                    pp \<leftarrow> parent_of (heap s) p;
                    Some (s\<lparr>block := p,
                            child := of_int (indexOf pchs (component s)) - 1 / 2,
                            component := pp\<rparr>)
                  }
              }
            else
              do {
                chs \<leftarrow> children_of (heap s) (nth_js bs (pos - 1));
                Some (s\<lparr>block := nth_js bs (pos - 1), child := of_nat (length chs) - 1 / 2\<rparr>)
              }
          }
        else
          do {
            chs \<leftarrow> children_of (heap s) (block s);
            let prevComponent = nth_js chs \<lfloor>child s\<rfloor>;
            if is_leaf (heap s) prevComponent then Some (s\<lparr>child := child s - 1\<rparr>)
            else
              do {
                bs \<leftarrow> blocks_of (heap s) prevComponent;
                pchs \<leftarrow> children_of (heap s) (nth_js bs (int (length bs) - 1));
                Some (s\<lparr>component := prevComponent,
                        block := nth_js bs (int (length bs) - 1),
                        child := of_nat (length pchs) - 1 / 2\<rparr>)
              }
          })"

definition backspace :: "cursor \<Rightarrow> cursor option" where
  "backspace s =
     (if length (components s) = 0 then Some s
      else if position s = - 1 / 2 then Some s
      else if block s = Null then
        (let prevComponent = nth_js (components s) \<lfloor>position s\<rfloor> in
         if is_leaf (heap s) prevComponent then removeComponent s
         else
           do {
             bs \<leftarrow> blocks_of (heap s) prevComponent;
             chs \<leftarrow> children_of (heap s) (nth_js bs (int (length bs) - 1));
             Some (s\<lparr>component := prevComponent,
                     block := nth_js bs (int (length bs) - 1),
                     child := of_nat (length chs) - 1 / 2,
                     position := of_int \<lfloor>position s\<rfloor>\<rparr>)
           })
      else
        do {
          e \<leftarrow> Component_isEmpty (heap s) (component s);
          if e then removeComponent s
          else if child s \<le> - 1 / 2 then
            do {
              bs \<leftarrow> blocks_of (heap s) (component s);
              let blockPos = indexOf bs (block s);
              if blockPos = 0 then Some s
              else
                do {
                  chs \<leftarrow> children_of (heap s) (nth_js bs (blockPos - 1));
                  Some (s\<lparr>block := nth_js bs (blockPos - 1),
                          child := of_nat (length chs) - 1 / 2\<rparr>)
                }
            }
          else
            do {
              H \<leftarrow> Block_removeChild (heap s) (block s) \<lfloor>child s\<rfloor>;
              Some (s\<lparr>heap := H, child := child s - 1\<rparr>)
            }
        })"




subsection \<open>The editing operations the editor offers\<close>

text \<open>
  The key handler and the palette buttons of the editor call the cursor. A key or a built-in
  button that inserts a Component runs \<open>_ = new K(this.cursor.block, ...)\<close> and then
  \<open>this.cursor.addComponent(_)\<close>: the Component is fresh, and its \<open>parent\<close> is the Block
  the cursor is in. \<open>Insert k col\<close> is that pair of statements for class \<open>k\<close>, with
  \<open>col\<close> the colour \<open>Colors.getNew()\<close> draws. (A button added with
  \<open>registerFunction\<close> constructs its Component without an argument: see
  \<open>register_insert\<close> below.)
\<close>

datatype op = AddText string | Insert cls string | Backspace | SeekLeft | SeekRight

definition insert_new :: "cursor \<Rightarrow> cls \<Rightarrow> string \<Rightarrow> cursor option" where
  "insert_new s k col =
     (let (c, H) = new_Component k (block s) col (heap s) in addComponent (s\<lparr>heap := H\<rparr>) c)"

fun step :: "cursor \<Rightarrow> op \<Rightarrow> cursor option" where
  "step s (AddText text) = addText s text"
| "step s (Insert k col) = insert_new s k col"
| "step s Backspace = backspace s"
| "step s SeekLeft = seekLeft s"
| "step s SeekRight = seekRight s"

text \<open>The click handler of a button added with \<open>registerFunction\<close> runs
  \<open>this.cursor.addComponent(new componentClass())\<close>: the constructor gets no argument, and
  the default parameter of \<open>Component\<close> makes the \<open>parent\<close> of the new Component
  \<open>null\<close>, also when the cursor is inside a Block.\<close>

definition register_insert :: "cursor \<Rightarrow> cls \<Rightarrow> string \<Rightarrow> cursor option" where
  "register_insert s k col =
     (let (c, H) = new_Component k Null col (heap s) in addComponent (s\<lparr>heap := H\<rparr>) c)"

fun run :: "cursor \<Rightarrow> op list \<Rightarrow> cursor option" where
  "run s [] = Some s"
| "run s (x # xs) = (case step s x of None \<Rightarrow> None | Some s' \<Rightarrow> run s' xs)"

section \<open>Notions the properties are stated with\<close>

text \<open>The markup one child contributes: a string itself, a Component its own
  \<open>toLatex\<close>; and the in-order concatenation over all children.\<close>

fun child_markup :: "(jsval \<Rightarrow> string option) \<Rightarrow> jsval \<Rightarrow> string option" where
  "child_markup rd (Str c) = Some c"
| "child_markup rd c = rd c"

text \<open>The store after \<open>Insert (OneBlockComponent Sqrt)\<close> and then
  \<open>Insert (MJXGUISymbol \alpha)\<close> on the empty editor: a square root whose Block holds
  the symbol.\<close>

definition sqrt_alpha_heap :: heap where
  "sqrt_alpha_heap =
     [Component (OneBlockComponent Sqrt) [Ref 1] Null (Some ''red''),
      Block [Ref 2] (Ref 0),
      Component (MJXGUISymbol (bsl @ ''alpha'')) [] (Ref 1) None]"

definition limit_heap :: heap where
  "limit_heap =
     [Component (TwoBlockComponent Limit) [Ref 1, Ref 2] Null (Some ''teal''),
      Block [] (Ref 0), Block [] (Ref 0)]"

text \<open>What the claim says a matrix returns: after each cell comes the column separator,
  except after the last cell of a row, where the row separator comes, except in the last
  row; the cells in row-major order, cell \<open>(i, j)\<close> being Block \<open>i * cols + j\<close>.\<close>

definition matrix_sep :: "nat \<Rightarrow> nat \<Rightarrow> nat \<Rightarrow> nat \<Rightarrow> string" where
  "matrix_sep rows cols i j =
     (if Suc j = cols then (if Suc i = rows then '''' else '' '' @ bsl @ bsl @ '' '')
      else '' & '')"

definition matrix_row :: "(nat \<Rightarrow> string) \<Rightarrow> nat \<Rightarrow> nat \<Rightarrow> nat \<Rightarrow> string" where
  "matrix_row cell rows cols i =
     concat (map (\<lambda>j. cell (i * cols + j) @ matrix_sep rows cols i j) [0..<cols])"

definition matrix_markup :: "(nat \<Rightarrow> string) \<Rightarrow> nat \<Rightarrow> nat \<Rightarrow> string" where
  "matrix_markup cell rows cols =
     bsl @ ''begin{matrix}'' @ concat (map (matrix_row cell rows cols) [0..<rows])
       @ bsl @ ''end{matrix}''"

definition matrix_heap :: heap where
  "matrix_heap =
     [Component (MatrixComponent 1 2) [Ref 1, Ref 2] Null (Some ''olive''),
      Block [] (Ref 0), Block [] (Ref 0)]"

text \<open>A Block of a stored tree: its parent is an older Component that lists it among
  its Blocks; the Block of a text leaf holds strings, any other Block holds distinct
  younger Components whose parent it is.\<close>

definition wf_block :: "heap \<Rightarrow> ref \<Rightarrow> bool" where
  "wf_block H r =
     (\<exists>c. parent (H ! r) = Ref c \<and> c < r \<and> \<not> is_Block (H ! c)
        \<and> Ref r \<in> set (blocks (H ! c))
        \<and> (if cls (H ! c) = TextComponent then
              (\<forall>ch \<in> set (children (H ! r)). \<exists>t. ch = Str t)
            else
              distinct (children (H ! r))
              \<and> (\<forall>ch \<in> set (children (H ! r)).
                    \<exists>x. ch = Ref x \<and> r < x \<and> x < length H \<and> \<not> is_Block (H ! x)
                      \<and> parent (H ! x) = Ref r)))"

text \<open>A Component of a stored tree: it has the Blocks its class constructs, distinct
  younger Blocks whose parent it is; a Component that is not a leaf has a Block.\<close>

definition wf_component :: "heap \<Rightarrow> ref \<Rightarrow> bool" where
  "wf_component H r =
     (length (blocks (H ! r)) = arity (cls (H ! r))
      \<and> (leaf_cls (cls (H ! r)) \<or> 0 < arity (cls (H ! r)))
      \<and> distinct (blocks (H ! r))
      \<and> (\<forall>b \<in> set (blocks (H ! r)).
            \<exists>x. b = Ref x \<and> r < x \<and> x < length H \<and> is_Block (H ! x) \<and> parent (H ! x) = Ref r))"

definition wf_heap :: "heap \<Rightarrow> bool" where
  "wf_heap H = (\<forall>r < length H. if is_Block (H ! r) then wf_block H r else wf_component H r)"

text \<open>The top-level array: distinct Components without a parent.\<close>

definition wf_top :: "heap \<Rightarrow> jsval list \<Rightarrow> bool" where
  "wf_top H cs =
     (distinct cs
      \<and> (\<forall>v \<in> set cs. \<exists>c. v = Ref c \<and> c < length H \<and> \<not> is_Block (H ! c) \<and> parent (H ! c) = Null))"

text \<open>Component \<open>c\<close> hangs in the tree below the top-level Component at index \<open>m\<close>.\<close>

inductive attached :: "heap \<Rightarrow> jsval list \<Rightarrow> nat \<Rightarrow> ref \<Rightarrow> bool"
  for H :: heap and cs :: "jsval list" and m :: nat where
  top: "m < length cs \<Longrightarrow> cs ! m = Ref c \<Longrightarrow> attached H cs m c"
| nested: "attached H cs m c' \<Longrightarrow> c' < length H \<Longrightarrow> \<not> is_Block (H ! c')
     \<Longrightarrow> Ref b \<in> set (blocks (H ! c')) \<Longrightarrow> b < length H \<Longrightarrow> is_Block (H ! b)
     \<Longrightarrow> Ref c \<in> set (children (H ! b)) \<Longrightarrow> attached H cs m c"

text \<open>The two kinds of resting cursor: at top level in the gap before Component \<open>m\<close>;
  inside Block \<open>b\<close> of Component \<open>c\<close> in the gap before child \<open>j\<close>, below top-level
  Component \<open>m\<close>.\<close>

definition at_top :: "cursor \<Rightarrow> nat \<Rightarrow> bool" where
  "at_top s m =
     (block s = Null \<and> component s = Null \<and> child s = - 1 / 2
      \<and> m \<le> length (components s) \<and> position s = of_nat m - 1 / 2)"

definition inside :: "cursor \<Rightarrow> ref \<Rightarrow> ref \<Rightarrow> nat \<Rightarrow> nat \<Rightarrow> bool" where
  "inside s c b j m =
     (block s = Ref b \<and> component s = Ref c
      \<and> c < length (heap s) \<and> \<not> is_Block (heap s ! c) \<and> \<not> leaf_cls (cls (heap s ! c))
      \<and> Ref b \<in> set (blocks (heap s ! c))
      \<and> j \<le> length (children (heap s ! b)) \<and> child s = of_nat j - 1 / 2
      \<and> m < length (components s) \<and> position s = of_nat m
      \<and> attached (heap s) (components s) m c)"

definition wf :: "cursor \<Rightarrow> bool" where
  "wf s =
     (wf_heap (heap s) \<and> wf_top (heap s) (components s)
      \<and> ((\<exists>m. at_top s m) \<or> (\<exists>c b j m. inside s c b j m)))"

text \<open>The classes the palette can construct: any class, a matrix with at least one row
  and one column.\<close>

fun constructible :: "cls \<Rightarrow> bool" where
  "constructible (MatrixComponent rows cols) = (0 < rows \<and> 0 < cols)"
| "constructible _ = True"

fun valid_op :: "op \<Rightarrow> bool" where
  "valid_op (Insert k col) = constructible k"
| "valid_op _ = True"

text \<open>A multiple of one half that is not whole: \<open>N - 0.5\<close> for an integer \<open>N\<close>.\<close>

definition half_integer :: "rat \<Rightarrow> bool" where
  "half_integer q = (of_int \<lfloor>q + 1 / 2\<rfloor> = q + 1 / 2)"

text \<open>A document of leaves only, with the cursor at top level behind the last of them.\<close>

definition leaves_only :: "cursor \<Rightarrow> bool" where
  "leaves_only s =
     (wf_heap (heap s) \<and> wf_top (heap s) (components s)
      \<and> at_top s (length (components s))
      \<and> (\<forall>i < length (components s). \<exists>x. components s ! i = Ref x \<and> leaf_cls (cls (heap s ! x))))"

text \<open>The editor after typing \<open>a\<close>: one text leaf, the cursor behind it.\<close>

definition typed_a :: cursor where
  "typed_a =
     \<lparr>heap = [Component TextComponent [Ref 1] Null None, Block [Str ''a''] (Ref 0)],
      components = [Ref 0], block = Null, component = Null,
      child = - 1 / 2, position = 1 / 2, latex = ''''\<rparr>"

text \<open>The editor after inserting a square root: the cursor is in its Block.\<close>

definition in_sqrt :: cursor where
  "in_sqrt =
     \<lparr>heap = [Component (OneBlockComponent Sqrt) [Ref 1] Null (Some ''red''), Block [] (Ref 0)],
      components = [Ref 0], block = Ref 1, component = Ref 0,
      child = - 1 / 2, position = 0, latex = ''''\<rparr>"

text \<open>The editor after inserting a square root and then, by a button that
  \<open>registerFunction\<close> added, a second one into its Block.\<close>

definition parentless_in_sqrt :: cursor where
  "parentless_in_sqrt =
     \<lparr>heap = [Component (OneBlockComponent Sqrt) [Ref 1] Null (Some ''red''),
              Block [Ref 2] (Ref 0),
              Component (OneBlockComponent Sqrt) [Ref 3] Null (Some ''blue''),
              Block [] (Ref 2)],
      components = [Ref 0], block = Ref 3, component = Ref 2,
      child = - 1 / 2, position = 0, latex = ''''\<rparr>"

text \<open>The editor after typing \<open>a\<close> and constructing a square root for the top level,
  before \<open>addComponent\<close> is called with it.\<close>

definition sqrt_built :: cursor where
  "sqrt_built =
     typed_a\<lparr>heap := snd (new_Component (OneBlockComponent Sqrt) Null ''red'' (heap typed_a))\<rparr>"

text \<open>The editor after inserting a square root, a second one inside it, typing \<open>x\<close> in
  the inner one and stepping right out of it: the cursor is in the outer root's Block
  (object 1) behind the inner root (object 2), whose Block (object 3) holds the \<open>x\<close>.\<close>

definition behind_inner_sqrt :: cursor where
  "behind_inner_sqrt =
     \<lparr>heap = [Component (OneBlockComponent Sqrt) [Ref 1] Null (Some ''red''),
              Block [Ref 2] (Ref 0),
              Component (OneBlockComponent Sqrt) [Ref 3] (Ref 1) (Some ''blue''),
              Block [Ref 4] (Ref 2),
              Component TextComponent [Ref 5] (Ref 3) None,
              Block [Str ''x''] (Ref 4)],
      components = [Ref 0], block = Ref 1, component = Ref 0,
      child = 1 / 2, position = 0, latex = ''''\<rparr>"



section \<open>Markup of Blocks and matrices\<close>

subsection \<open>Blocks\<close>

lemma deref_new_Component:
  "deref (snd (new_Component k p col H)) (length H) =
     Some (Component k (map (\<lambda>i. Ref (Suc (length H) + i)) [0..<arity k]) p (initial_color k col))"
  by (simp add: new_Component_def deref_def Let_def nth_append)

lemma deref_new_Component_block:
  "i < arity k \<Longrightarrow>
   deref (snd (new_Component k p col H)) (Suc (length H) + i) = Some (Block [] (Ref (length H)))"
  by (simp add: new_Component_def deref_def Let_def nth_append)

lemma new_Component_fst: "fst (new_Component k p col H) = Ref (length H)"
  by (simp add: new_Component_def Let_def)

lemma toLatex_new_block:
  assumes "i < arity k"
  shows "toLatex (Suc n) (snd (new_Component k p col H)) (Ref (Suc (length H) + i)) =
     Some (placeholder (case initial_color k col of None \<Rightarrow> ''null'' | Some x \<Rightarrow> x))"
  using deref_new_Component_block[OF assms, of p col H] deref_new_Component[of k p col H]
  by (simp add: color_text_def)

lemma Block_loop_those:
  "Block_loop rd cs acc = map_option (\<lambda>ms. acc @ concat ms) (those (map (child_markup rd) cs))"
proof (induction cs arbitrary: acc)
  case Nil
  show ?case by simp
next
  case (Cons c cs)
  show ?case
  proof (cases c)
    case (Str t)
    then show ?thesis
      using Cons.IH[of "acc @ t"] by (cases "those (map (child_markup rd) cs)") simp_all
  next
    case Null
    then show ?thesis
      using Cons.IH by (cases "rd Null"; cases "those (map (child_markup rd) cs)") simp_all
  next
    case Undefined
    then show ?thesis
      using Cons.IH by (cases "rd Undefined"; cases "those (map (child_markup rd) cs)") simp_all
  next
    case (Ref r)
    then show ?thesis
      using Cons.IH by (cases "rd (Ref r)"; cases "those (map (child_markup rd) cs)") simp_all
  qed
qed

lemma trim_example: "trim (bsl @ ''alpha '') = bsl @ ''alpha''"
  by (simp add: trim_def is_space_def white_space_code_def bsl_def)

text \<open>
  C7 as stated: a Block with children returns exactly the concatenation of its children's
  markup, no character added or removed. This fails: \<open>Block.toLatex\<close> ends with
  \<open>latex.trim()\<close>, and a symbol's markup ends with a space. In the store above (which the
  two insertions produce) the only child of Block 1 has the markup \<open>\alpha\<close> followed by
  a space, and the Block returns \<open>\alpha\<close> without it.
\<close>

theorem Block_toLatex_not_verbatim:
  "map_option heap
     (run Cursor_new [Insert (OneBlockComponent Sqrt) ''red'',
                      Insert (MJXGUISymbol (bsl @ ''alpha'')) ''blue'']) = Some sqrt_alpha_heap
   \<and> deref sqrt_alpha_heap 1 = Some (Block [Ref 2] (Ref 0))
   \<and> those (map (child_markup (toLatex 1 sqrt_alpha_heap)) [Ref 2]) = Some [bsl @ ''alpha '']
   \<and> toLatex 2 sqrt_alpha_heap (Ref 1) = Some (bsl @ ''alpha'')
   \<and> toLatex 2 sqrt_alpha_heap (Ref 1) \<noteq> Some (concat [bsl @ ''alpha ''])"
  by (simp add: sqrt_alpha_heap_def insert_new_def new_Component_def addComponent_def
      Expression_add_def splice_insert_def splice_start_def is_leaf_def deref_def blocks_of_def
      nth_js_def Block_addChild_def Cursor_new_def numeral_2_eq_2 trim_def is_space_def
      white_space_code_def bsl_def)

text \<open>
  C7, amended: for a Block with at least one child, when every child has a markup (a
  string child itself, a Component child its \<open>toLatex\<close>), \<open>Block.toLatex\<close> returns the
  in-order concatenation of these markups with the white space at both ends trimmed.
\<close>

theorem Block_toLatex_children:
  assumes "deref H b = Some (Block chs p)"
    and "chs \<noteq> []"
    and "those (map (child_markup (toLatex n H)) chs) = Some ms"
  shows "toLatex (Suc n) H (Ref b) = Some (trim (concat ms))"
  using assms by (simp add: Block_loop_those)

theorem Block_toLatex_children_witness:
  "deref sqrt_alpha_heap 1 = Some (Block [Ref 2] (Ref 0))
   \<and> [Ref 2] \<noteq> []
   \<and> those (map (child_markup (toLatex 1 sqrt_alpha_heap)) [Ref 2]) = Some [bsl @ ''alpha '']
   \<and> toLatex 2 sqrt_alpha_heap (Ref 1) = Some (trim (concat [bsl @ ''alpha '']))"
proof -
  have d: "deref sqrt_alpha_heap 1 = Some (Block [Ref 2] (Ref 0))"
    by (simp add: sqrt_alpha_heap_def deref_def)
  have m: "those (map (child_markup (toLatex 1 sqrt_alpha_heap)) [Ref 2]) = Some [bsl @ ''alpha '']"
    by (simp add: sqrt_alpha_heap_def deref_def)
  have "toLatex (Suc 1) sqrt_alpha_heap (Ref 1) = Some (trim (concat [bsl @ ''alpha '']))"
    using Block_toLatex_children[OF d _ m] by simp
  with d m show ?thesis by (simp add: numeral_2_eq_2)
qed

text \<open>
  C8: a Block with no children returns the boxed placeholder coloured with the colour of
  the Component that owns it (the text \<open>null\<close> when that Component has no colour), never
  the empty string; and each of the two Blocks of a freshly constructed two-block Component
  returns the placeholder in the Component's colour.
\<close>

theorem Block_toLatex_empty:
  "(deref H b = Some (Block [] (Ref c)) \<and> deref H c = Some (Component k bs p col) \<longrightarrow>
      toLatex (Suc n) H (Ref b) =
        Some (bsl @ ''color{'' @ (case col of None \<Rightarrow> ''null'' | Some x \<Rightarrow> x) @ ''}{''
              @ bsl @ ''boxed{&#8200;}}'')
      \<and> toLatex (Suc n) H (Ref b) \<noteq> Some '''')
   \<and> blocks_of (snd (new_Component (TwoBlockComponent k2) q col2 H2))
         (fst (new_Component (TwoBlockComponent k2) q col2 H2)) =
       Some [Ref (Suc (length H2)), Ref (Suc (Suc (length H2)))]
   \<and> toLatex (Suc m) (snd (new_Component (TwoBlockComponent k2) q col2 H2))
         (Ref (Suc (length H2))) =
       Some (bsl @ ''color{'' @ col2 @ ''}{'' @ bsl @ ''boxed{&#8200;}}'')
   \<and> toLatex (Suc m) (snd (new_Component (TwoBlockComponent k2) q col2 H2))
         (Ref (Suc (Suc (length H2)))) =
       Some (bsl @ ''color{'' @ col2 @ ''}{'' @ bsl @ ''boxed{&#8200;}}'')"
proof -
  let ?k = "TwoBlockComponent k2"
  let ?H = "snd (new_Component ?k q col2 H2)"
  have first: "deref H b = Some (Block [] (Ref c)) \<and> deref H c = Some (Component k bs p col) \<longrightarrow>
      toLatex (Suc n) H (Ref b) =
        Some (bsl @ ''color{'' @ (case col of None \<Rightarrow> ''null'' | Some x \<Rightarrow> x) @ ''}{''
              @ bsl @ ''boxed{&#8200;}}'')
      \<and> toLatex (Suc n) H (Ref b) \<noteq> Some []"
    by (simp add: color_text_def placeholder_def bsl_def)
  have bs: "blocks_of ?H (fst (new_Component ?k q col2 H2)) =
       Some [Ref (Suc (length H2)), Ref (Suc (Suc (length H2)))]"
    using deref_new_Component[of ?k q col2 H2]
    by (simp add: blocks_of_def new_Component_fst numeral_2_eq_2)
  have b0: "toLatex (Suc m) ?H (Ref (Suc (length H2))) =
       Some (bsl @ ''color{'' @ col2 @ ''}{'' @ bsl @ ''boxed{&#8200;}}'')"
    using toLatex_new_block[of 0 ?k m q col2 H2] by (simp add: placeholder_def)
  have b1: "toLatex (Suc m) ?H (Ref (Suc (Suc (length H2)))) =
       Some (bsl @ ''color{'' @ col2 @ ''}{'' @ bsl @ ''boxed{&#8200;}}'')"
    using toLatex_new_block[of 1 ?k m q col2 H2] by (simp add: placeholder_def)
  from first bs b0 b1 show ?thesis by blast
qed

theorem Block_toLatex_empty_witness:
  "deref limit_heap 2 = Some (Block [] (Ref 0))
   \<and> deref limit_heap 0 = Some (Component (TwoBlockComponent Limit) [Ref 1, Ref 2] Null (Some ''teal''))
   \<and> toLatex 1 limit_heap (Ref 2) = Some (bsl @ ''color{teal}{'' @ bsl @ ''boxed{&#8200;}}'')"
proof -
  have d: "deref limit_heap 2 = Some (Block [] (Ref 0)) \<and>
     deref limit_heap 0 = Some (Component (TwoBlockComponent Limit) [Ref 1, Ref 2] Null (Some ''teal''))"
    by (simp add: limit_heap_def deref_def)
  then show ?thesis
    using Block_toLatex_empty[of limit_heap 2 0 "TwoBlockComponent Limit" "[Ref 1, Ref 2]" Null
        "Some ''teal''" 0]
    by simp
qed

subsection \<open>Matrices\<close>

lemma Matrix_cols_eq:
  assumes "\<forall>j < cols. bl (int (i * cols + j)) = Some (cell (i * cols + j))"
  shows "j \<le> cols \<Longrightarrow> Matrix_cols bl rows cols i j out =
    Some (out @ concat (map (\<lambda>j. cell (i * cols + j) @ matrix_sep rows cols i j) [j..<cols]))"
proof (induction "cols - j" arbitrary: j out)
  case 0
  then show ?case by (simp add: Matrix_cols.simps)
next
  case (Suc m)
  then have lt: "j < cols" and m: "m = cols - Suc j" and le: "Suc j \<le> cols" by simp_all
  have cellj: "bl (int (i * cols + j)) = Some (cell (i * cols + j))" using assms lt by simp
  have sep: "(if int j = int cols - 1 then
                  (if int i \<noteq> int rows - 1 then (out @ cell (i * cols + j)) @ '' '' @ bsl @ bsl @ '' ''
                   else out @ cell (i * cols + j))
                else (out @ cell (i * cols + j)) @ '' & '')
            = out @ cell (i * cols + j) @ matrix_sep rows cols i j"
    by (auto simp: matrix_sep_def)
  have "Matrix_cols bl rows cols i j out =
        Matrix_cols bl rows cols i (Suc j) (out @ cell (i * cols + j) @ matrix_sep rows cols i j)"
    by (subst Matrix_cols.simps) (simp only: lt if_True cellj option.case sep)
  also have "\<dots> = Some ((out @ cell (i * cols + j) @ matrix_sep rows cols i j) @
      concat (map (\<lambda>j. cell (i * cols + j) @ matrix_sep rows cols i j) [Suc j..<cols]))"
    using Suc.hyps(1)[OF m le] .
  finally show ?case using lt by (simp add: upt_conv_Cons)
qed

lemma Matrix_rows_eq:
  assumes "\<forall>k < rows * cols. bl (int k) = Some (cell k)"
  shows "i \<le> rows \<Longrightarrow> Matrix_rows bl rows cols i out =
    Some (out @ concat (map (matrix_row cell rows cols) [i..<rows]))"
proof (induction "rows - i" arbitrary: i out)
  case 0
  then show ?case by (simp add: Matrix_rows.simps)
next
  case (Suc m)
  then have lt: "i < rows" and m: "m = rows - Suc i" and le: "Suc i \<le> rows" by simp_all
  have cells: "\<forall>j < cols. bl (int (i * cols + j)) = Some (cell (i * cols + j))"
  proof (intro allI impI)
    fix j assume "j < cols"
    have "i * cols + j < Suc i * cols" using \<open>j < cols\<close> by simp
    also have "\<dots> \<le> rows * cols" using le by (rule mult_le_mono1)
    finally have "i * cols + j < rows * cols" .
    with assms show "bl (int (i * cols + j)) = Some (cell (i * cols + j))" by blast
  qed
  have row: "Matrix_cols bl rows cols i 0 out = Some (out @ matrix_row cell rows cols i)"
    using Matrix_cols_eq[OF cells, of 0 rows out] by (simp add: matrix_row_def)
  have "Matrix_rows bl rows cols i out =
        Matrix_rows bl rows cols (Suc i) (out @ matrix_row cell rows cols i)"
    by (subst Matrix_rows.simps) (simp only: lt if_True row option.case)
  also have "\<dots> = Some ((out @ matrix_row cell rows cols i) @
      concat (map (matrix_row cell rows cols) [Suc i..<rows]))"
    using Suc.hyps(1)[OF m le] .
  finally show ?case using lt by (simp add: upt_conv_Cons)
qed

lemma Matrix_toLatex_eq:
  assumes "\<forall>k < rows * cols. bl (int k) = Some (cell k)"
  shows "Matrix_toLatex bl rows cols = Some (matrix_markup cell rows cols)"
  using Matrix_rows_eq[OF assms, of 0 "bsl @ ''begin{matrix}''"]
  by (simp add: Matrix_toLatex_def matrix_markup_def)

text \<open>
  C9: \<open>MatrixComponent.toLatex\<close> returns \<open>\begin{matrix}\<close>, the cells in row-major order
  (cell \<open>(i, j)\<close> is Block \<open>i * cols + j\<close>), each followed by the column separator
  except the last of its row, which is followed by the row separator except in the last row,
  and \<open>\end{matrix}\<close>; a freshly constructed 2 by 2 matrix returns the four placeholders
  separated by \<open> & \<close> within a row and by the row separator between the rows.
\<close>

theorem MatrixComponent_toLatex_layout:
  "(deref H c = Some (Component (MatrixComponent rows cols) bs p col) \<and>
    (\<forall>k < rows * cols. toLatex n H (nth_js bs (int k)) = Some (cell k))
      \<longrightarrow> toLatex (Suc n) H (Ref c) = Some (matrix_markup cell rows cols)) \<and>
   toLatex (Suc (Suc m)) (snd (new_Component (MatrixComponent 2 2) q col2 H2))
      (fst (new_Component (MatrixComponent 2 2) q col2 H2)) =
     Some (bsl @ ''begin{matrix}''
           @ placeholder col2 @ '' & '' @ placeholder col2 @ '' '' @ bsl @ bsl @ '' ''
           @ placeholder col2 @ '' & '' @ placeholder col2
           @ bsl @ ''end{matrix}'')"
proof (intro conjI impI)
  assume a: "deref H c = Some (Component (MatrixComponent rows cols) bs p col) \<and>
    (\<forall>k < rows * cols. toLatex n H (nth_js bs (int k)) = Some (cell k))"
  then show "toLatex (Suc n) H (Ref c) = Some (matrix_markup cell rows cols)"
    using Matrix_toLatex_eq[of rows cols "\<lambda>i. toLatex n H (nth_js bs i)" cell] by simp
next
  let ?k = "MatrixComponent 2 2"
  let ?H = "snd (new_Component ?k q col2 H2)"
  let ?bs = "map (\<lambda>i. Ref (Suc (length H2) + i)) [0..<4]"
  have cells: "\<forall>k < 2 * 2. toLatex (Suc m) ?H (nth_js ?bs (int k)) = Some (placeholder col2)"
  proof (intro allI impI)
    fix k :: nat assume "k < 2 * 2"
    then have k: "k < arity ?k" by simp
    have "nth_js ?bs (int k) = Ref (Suc (length H2) + k)"
      using k by (simp add: nth_js_def del: upt_Suc)
    then show "toLatex (Suc m) ?H (nth_js ?bs (int k)) = Some (placeholder col2)"
      using toLatex_new_block[OF k, of m q col2 H2] by simp
  qed
  have "toLatex (Suc (Suc m)) ?H (Ref (length H2)) =
          Matrix_toLatex (\<lambda>i. toLatex (Suc m) ?H (nth_js ?bs i)) 2 2"
    using deref_new_Component[of ?k q col2 H2] by (simp add: numeral_eq_Suc)
  also have "\<dots> = Some (matrix_markup (\<lambda>k. placeholder col2) 2 2)"
    using Matrix_toLatex_eq[OF cells] .
  also have "matrix_markup (\<lambda>k. placeholder col2) 2 2 =
     bsl @ ''begin{matrix}''
           @ placeholder col2 @ '' & '' @ placeholder col2 @ '' '' @ bsl @ bsl @ '' ''
           @ placeholder col2 @ '' & '' @ placeholder col2
           @ bsl @ ''end{matrix}''"
    by (simp add: matrix_markup_def matrix_row_def matrix_sep_def numeral_eq_Suc)
  finally show "toLatex (Suc (Suc m)) ?H (fst (new_Component ?k q col2 H2)) =
     Some (bsl @ ''begin{matrix}''
           @ placeholder col2 @ '' & '' @ placeholder col2 @ '' '' @ bsl @ bsl @ '' ''
           @ placeholder col2 @ '' & '' @ placeholder col2
           @ bsl @ ''end{matrix}'')"
    by (simp add: new_Component_fst)
qed

theorem MatrixComponent_toLatex_layout_witness:
  "deref matrix_heap 0 = Some (Component (MatrixComponent 1 2) [Ref 1, Ref 2] Null (Some ''olive''))
   \<and> toLatex 1 matrix_heap (Ref 1) = Some (placeholder ''olive'')
   \<and> toLatex 1 matrix_heap (Ref 2) = Some (placeholder ''olive'')
   \<and> toLatex 2 matrix_heap (Ref 0) =
       Some (bsl @ ''begin{matrix}'' @ placeholder ''olive'' @ '' & '' @ placeholder ''olive''
             @ bsl @ ''end{matrix}'')"
proof -
  have d: "deref matrix_heap 0 =
      Some (Component (MatrixComponent 1 2) [Ref 1, Ref 2] Null (Some ''olive''))"
    by (simp add: matrix_heap_def deref_def)
  have c1: "toLatex 1 matrix_heap (Ref 1) = Some (placeholder ''olive'')"
    and c2: "toLatex 1 matrix_heap (Ref 2) = Some (placeholder ''olive'')"
    by (simp_all add: matrix_heap_def deref_def color_text_def)
  have cells: "\<forall>k < 1 * 2. toLatex 1 matrix_heap (nth_js [Ref 1, Ref 2] (int k)) =
      Some (placeholder ''olive'')"
    using c1 c2 by (auto simp: nth_js_def less_Suc_eq numeral_2_eq_2)
  have "toLatex (Suc 1) matrix_heap (Ref 0) = Some (matrix_markup (\<lambda>k. placeholder ''olive'') 1 2)"
    using MatrixComponent_toLatex_layout[of matrix_heap 0 1 2 "[Ref 1, Ref 2]" Null
        "Some ''olive''" 1 "\<lambda>k. placeholder ''olive''"] d cells
    by blast
  then have "toLatex 2 matrix_heap (Ref 0) =
       Some (bsl @ ''begin{matrix}'' @ placeholder ''olive'' @ '' & '' @ placeholder ''olive''
             @ bsl @ ''end{matrix}'')"
    by (simp add: matrix_markup_def matrix_row_def matrix_sep_def numeral_2_eq_2)
  with d c1 c2 show ?thesis by simp
qed

section \<open>The cursor\<close>

subsection \<open>Half-integer addresses\<close>

lemma ceiling_half [simp]: "\<lceil>(of_nat j :: rat) - 1 / 2\<rceil> = int j"
  by linarith

lemma floor_half [simp]: "\<lfloor>(of_nat j :: rat) - 1 / 2\<rfloor> = int j - 1"
  by linarith

lemma ceiling_minus_half [simp]: "\<lceil>- (1 / 2) :: rat\<rceil> = 0"
  by linarith

lemma floor_minus_half [simp]: "\<lfloor>- (1 / 2) :: rat\<rfloor> = - 1"
  by linarith

lemma half_eq_iff [simp]: "((of_nat j :: rat) - 1 / 2 = of_nat j' - 1 / 2) = (j = j')"
  by simp

lemma half_eq_minus_half [simp]: "((of_nat j :: rat) - 1 / 2 = - (1 / 2)) = (j = 0)"
  by simp

lemma half_le_minus_half [simp]: "((of_nat j :: rat) - 1 / 2 \<le> - (1 / 2)) = (j = 0)"
  by simp

lemma half_le_iff [simp]: "((of_nat j :: rat) - 1 / 2 \<le> of_nat j' - 1 / 2) = (j \<le> j')"
  by simp

lemma half_le_nat [simp]: "((of_nat n :: rat) - 1 / 2 \<le> of_nat m) = (n \<le> m)"
proof
  assume "(of_nat n :: rat) - 1 / 2 \<le> of_nat m"
  then have "(of_nat n :: rat) < of_nat m + 1" by linarith
  then have "(of_nat n :: rat) < of_nat (Suc m)" by simp
  then have "n < Suc m" by (simp only: of_nat_less_iff)
  then show "n \<le> m" by simp
next
  assume "n \<le> m"
  then have "(of_nat n :: rat) \<le> of_nat m" by simp
  then show "(of_nat n :: rat) - 1 / 2 \<le> of_nat m" by linarith
qed

lemma nat_not_le_minus_half [simp]: "\<not> (of_nat m :: rat) \<le> - (1 / 2)"
proof -
  have "(0 :: rat) \<le> of_nat m" by simp
  then show ?thesis by linarith
qed

lemma half_not_whole [simp]: "of_int \<lfloor>(of_nat j :: rat) - 1 / 2\<rfloor> \<noteq> (of_nat j :: rat) - 1 / 2"
  by simp

lemma floor_one_half [simp]: "\<lfloor>1 / 2 :: rat\<rfloor> = 0"
  by linarith

lemma ceiling_one_half [simp]: "\<lceil>1 / 2 :: rat\<rceil> = 1"
  by linarith

subsection \<open>Arrays\<close>

lemma splice_start_nat [simp]: "j \<le> len \<Longrightarrow> splice_start (int j) len = j"
  by (simp add: splice_start_def)

lemma splice_insert_nat:
  "j \<le> length xs \<Longrightarrow> splice_insert (int j) v xs = take j xs @ v # drop j xs"
  by (simp add: splice_insert_def)

lemma splice_remove_nat:
  "j < length xs \<Longrightarrow> splice_remove (int j) xs = take j xs @ drop (Suc j) xs"
  by (simp add: splice_remove_def)


lemma length_splice_insert [simp]: "length (splice_insert i v xs) = Suc (length xs)"
  by (simp add: splice_insert_def Let_def)

lemma set_splice_insert [simp]: "set (splice_insert i v xs) = insert v (set xs)"
proof -
  have "set (take k xs) \<union> set (drop k xs) = set xs" for k
    by (metis append_take_drop_id set_append)
  then show ?thesis by (auto simp: splice_insert_def Let_def)
qed

lemma set_splice_remove: "set (splice_remove i xs) \<subseteq> set xs"
  by (auto simp: splice_remove_def Let_def dest: in_set_takeD in_set_dropD)

lemma take_drop_disjoint:
  "distinct xs \<Longrightarrow> distinct (take k xs) \<and> distinct (drop k xs)
     \<and> set (take k xs) \<inter> set (drop k xs) = {}"
proof -
  assume d: "distinct xs"
  have "distinct (take k xs @ drop k xs)" using d by simp
  then show ?thesis by (simp only: distinct_append)
qed

lemma distinct_splice_remove: "distinct xs \<Longrightarrow> distinct (splice_remove i xs)"
proof -
  assume d: "distinct xs"
  let ?k = "splice_start i (length xs)"
  note td = take_drop_disjoint[OF d, of ?k]
  have sub: "set (drop (Suc ?k) xs) \<subseteq> set (drop ?k xs)"
    by (rule set_drop_subset_set_drop) simp
  have "distinct (drop (Suc ?k) xs)" using d by simp
  with td sub show ?thesis by (auto simp: splice_remove_def Let_def)
qed

lemma distinct_splice_insert:
  "distinct xs \<Longrightarrow> v \<notin> set xs \<Longrightarrow> distinct (splice_insert i v xs)"
proof -
  assume d: "distinct xs" and v: "v \<notin> set xs"
  let ?k = "splice_start i (length xs)"
  note td = take_drop_disjoint[OF d, of ?k]
  moreover have "v \<notin> set (take ?k xs)" "v \<notin> set (drop ?k xs)"
    using v by (auto dest: in_set_takeD in_set_dropD)
  ultimately show ?thesis by (simp add: splice_insert_def Let_def)
qed

lemma nth_js_nat [simp]: "i < length xs \<Longrightarrow> nth_js xs (int i) = xs ! i"
  by (simp add: nth_js_def)

lemma nth_js_zero: "xs \<noteq> [] \<Longrightarrow> nth_js xs 0 = xs ! 0"
  by (simp add: nth_js_def)

lemma nth_js_neg [simp]: "nth_js xs (- 1) = Undefined"
  by (simp add: nth_js_def)

lemma nth_js_last: "xs \<noteq> [] \<Longrightarrow> nth_js xs (int (length xs) - 1) = last xs"
  by (cases xs rule: rev_cases) (simp_all add: nth_js_def nth_append)

lemma nth_num_nat [simp]: "nth_num xs (of_nat m) = nth_js xs (int m)"
  by (simp add: nth_num_def)

lemma first_index_Some_iff:
  "first_index xs v = Some i \<longleftrightarrow> i < length xs \<and> xs ! i = v \<and> v \<notin> set (take i xs)"
proof (induction xs arbitrary: i)
  case Nil
  show ?case by simp
next
  case (Cons x xs)
  show ?case
  proof (cases "x = v")
    case True
    then show ?thesis by (cases i) auto
  next
    case False
    then show ?thesis using Cons.IH by (cases i) auto
  qed
qed

lemma first_index_None_iff: "first_index xs v = None \<longleftrightarrow> v \<notin> set xs"
  by (induction xs) auto

lemma first_index_distinct:
  "distinct xs \<Longrightarrow> i < length xs \<Longrightarrow> first_index xs (xs ! i) = Some i"
  unfolding first_index_Some_iff
  by (auto simp: distinct_conv_nth in_set_conv_nth)

lemma indexOf_first_index:
  "indexOf xs v = (case first_index xs v of None \<Rightarrow> - 1 | Some i \<Rightarrow> int i)"
  by (induction xs) (auto simp: Let_def split: option.splits)

lemma indexOf_distinct:
  "distinct xs \<Longrightarrow> i < length xs \<Longrightarrow> indexOf xs (xs ! i) = int i"
  by (simp add: indexOf_first_index first_index_distinct)

lemma in_set_first_index:
  "v \<in> set xs \<Longrightarrow> \<exists>i. first_index xs v = Some i \<and> i < length xs \<and> xs ! i = v"
  by (cases "first_index xs v") (auto simp: first_index_None_iff first_index_Some_iff)

subsection \<open>Reading the store\<close>

lemma children_of_Block:
  "r < length H \<Longrightarrow> is_Block (H ! r) \<Longrightarrow> children_of H (Ref r) = Some (children (H ! r))"
  by (cases "H ! r") (simp_all add: children_of_def deref_def)

lemma blocks_of_Component:
  "r < length H \<Longrightarrow> \<not> is_Block (H ! r) \<Longrightarrow> blocks_of H (Ref r) = Some (blocks (H ! r))"
  by (cases "H ! r") (simp_all add: blocks_of_def deref_def)

lemma parent_of_Ref: "r < length H \<Longrightarrow> parent_of H (Ref r) = Some (parent (H ! r))"
  by (simp add: parent_of_def deref_def)

lemma is_leaf_Component:
  "r < length H \<Longrightarrow> \<not> is_Block (H ! r) \<Longrightarrow> is_leaf H (Ref r) = leaf_cls (cls (H ! r))"
  by (cases "H ! r") (simp_all add: is_leaf_def deref_def)

lemma is_leaf_Undefined [simp]: "\<not> is_leaf H Undefined"
  by (simp add: is_leaf_def)

subsection \<open>What the invariant of the store gives\<close>

lemma wf_heap_component:
  "wf_heap H \<Longrightarrow> c < length H \<Longrightarrow> \<not> is_Block (H ! c) \<Longrightarrow> wf_component H c"
  by (simp add: wf_heap_def)

lemma wf_heap_block:
  "wf_heap H \<Longrightarrow> b < length H \<Longrightarrow> is_Block (H ! b) \<Longrightarrow> wf_block H b"
  by (auto simp: wf_heap_def)

lemma block_of_component:
  assumes "wf_heap H" "c < length H" "\<not> is_Block (H ! c)" "Ref b \<in> set (blocks (H ! c))"
  shows "c < b \<and> b < length H \<and> is_Block (H ! b) \<and> parent (H ! b) = Ref c"
  using wf_heap_component[OF assms(1-3)] assms(4) by (auto simp: wf_component_def)

lemma blocks_are_refs:
  assumes "wf_heap H" "c < length H" "\<not> is_Block (H ! c)" "v \<in> set (blocks (H ! c))"
  shows "\<exists>b. v = Ref b"
  using wf_heap_component[OF assms(1-3)] assms(4) by (auto simp: wf_component_def)

lemma children_of_nonleaf:
  assumes "wf_heap H" "c < length H" "\<not> is_Block (H ! c)" "Ref b \<in> set (blocks (H ! c))"
    and "cls (H ! c) \<noteq> TextComponent"
  shows "distinct (children (H ! b))"
    and "v \<in> set (children (H ! b)) \<Longrightarrow>
           \<exists>x. v = Ref x \<and> b < x \<and> x < length H \<and> \<not> is_Block (H ! x) \<and> parent (H ! x) = Ref b"
proof -
  note b = block_of_component[OF assms(1-4)]
  from wf_heap_block[OF assms(1)] b have "wf_block H b" by simp
  with b assms(5) show "distinct (children (H ! b))" by (auto simp: wf_block_def)
  assume "v \<in> set (children (H ! b))"
  with \<open>wf_block H b\<close> b assms(5)
  show "\<exists>x. v = Ref x \<and> b < x \<and> x < length H \<and> \<not> is_Block (H ! x) \<and> parent (H ! x) = Ref b"
    by (auto simp: wf_block_def)
qed

lemma child_of_block:
  assumes "wf_heap H" "b < length H" "is_Block (H ! b)" "Ref x \<in> set (children (H ! b))"
  shows "b < x \<and> x < length H \<and> \<not> is_Block (H ! x) \<and> parent (H ! x) = Ref b"
proof -
  from wf_heap_block[OF assms(1-3)] obtain c where
    c: "parent (H ! b) = Ref c"
    and alt: "if cls (H ! c) = TextComponent then
              (\<forall>ch \<in> set (children (H ! b)). \<exists>t. ch = Str t)
            else
              distinct (children (H ! b))
              \<and> (\<forall>ch \<in> set (children (H ! b)).
                    \<exists>x. ch = Ref x \<and> b < x \<and> x < length H \<and> \<not> is_Block (H ! x)
                      \<and> parent (H ! x) = Ref b)"
    by (auto simp: wf_block_def)
  show ?thesis
  proof (cases "cls (H ! c) = TextComponent")
    case True
    with alt assms(4) show ?thesis by auto
  next
    case False
    with alt assms(4) show ?thesis by auto
  qed
qed

lemma nonleaf_not_text: "\<not> leaf_cls k \<Longrightarrow> k \<noteq> TextComponent"
  by auto

lemma nonleaf_has_block:
  assumes "wf_heap H" "c < length H" "\<not> is_Block (H ! c)" "\<not> leaf_cls (cls (H ! c))"
  shows "blocks (H ! c) \<noteq> []"
  using wf_heap_component[OF assms(1-3)] assms(4) by (auto simp: wf_component_def)

lemma wf_top_nth:
  assumes "wf_top H cs" "m < length cs" "cs ! m = Ref c"
  shows "c < length H \<and> \<not> is_Block (H ! c) \<and> parent (H ! c) = Null"
proof -
  have "Ref c \<in> set cs" using assms(2,3) by (metis nth_mem)
  with assms(1) show ?thesis by (auto simp: wf_top_def)
qed

lemma wf_top_refs:
  assumes "wf_top H cs" "m < length cs"
  shows "\<exists>c. cs ! m = Ref c"
proof -
  have "cs ! m \<in> set cs" using assms(2) by simp
  with assms(1) show ?thesis by (auto simp: wf_top_def)
qed

subsection \<open>Attachment\<close>

lemma attached_valid:
  assumes "attached H cs m c" "wf_heap H" "wf_top H cs"
  shows "c < length H \<and> \<not> is_Block (H ! c)"
  using assms
proof (induction rule: attached.induct)
  case (top c)
  then show ?case using wf_top_nth[of H cs m c] by simp
next
  case (nested c' b c)
  from child_of_block[OF nested.prems(1) nested.hyps(5,6,7)] show ?case by simp
qed

lemma attached_top_index: "attached H cs m c \<Longrightarrow> m < length cs"
  by (induction rule: attached.induct) auto

lemma attached_parent_Null:
  assumes "attached H cs m c" "wf_heap H" "wf_top H cs" "parent (H ! c) = Null"
  shows "cs ! m = Ref c"
  using assms(1)
proof (cases rule: attached.cases)
  case top
  then show ?thesis by simp
next
  case (nested c' b)
  from child_of_block[OF assms(2) nested(5,6,7)] assms(4) show ?thesis by simp
qed

lemma attached_parent_Ref:
  assumes "attached H cs m c" "wf_heap H" "wf_top H cs" "parent (H ! c) \<noteq> Null"
  shows "\<exists>c' b. parent (H ! c) = Ref b \<and> attached H cs m c' \<and> c' < length H
           \<and> \<not> is_Block (H ! c') \<and> Ref b \<in> set (blocks (H ! c')) \<and> b < length H
           \<and> is_Block (H ! b) \<and> Ref c \<in> set (children (H ! b)) \<and> parent (H ! b) = Ref c'"
  using assms(1)
proof (cases rule: attached.cases)
  case top
  with assms(3,4) show ?thesis using wf_top_nth[of H cs m c] by simp
next
  case (nested c' b)
  from child_of_block[OF assms(2) nested(5,6,7)] have p: "parent (H ! c) = Ref b" by simp
  from block_of_component[OF assms(2) nested(2,3,4)] have "parent (H ! b) = Ref c'" by simp
  with p nested show ?thesis by blast
qed

lemma attached_ext:
  assumes "attached H cs m c" "length H \<le> length H'" "\<forall>x < length H. H' ! x = H ! x"
  shows "attached H' cs m c"
  using assms
proof (induction rule: attached.induct)
  case (top c)
  then show ?case by (auto intro: attached.top)
next
  case (nested c' b c)
  then have "attached H' cs m c'" by simp
  moreover have "H' ! c' = H ! c'" "H' ! b = H ! b" using nested by auto
  ultimately show ?case
    using nested.hyps nested.prems(1) by (auto intro!: attached.nested[of H' cs m c' b c])
qed

lemma attached_below:
  assumes "attached H cs m c" "wf_heap H" "length H' = length H" "\<forall>x < c. H' ! x = H ! x"
  shows "attached H' cs m c"
  using assms
proof (induction rule: attached.induct)
  case (top c)
  then show ?case by (auto intro: attached.top)
next
  case (nested c' b c)
  from block_of_component[OF nested.prems(1) nested.hyps(2,3,4)] have "c' < b" by simp
  moreover from child_of_block[OF nested.prems(1) nested.hyps(5,6,7)] have "b < c" by simp
  ultimately have eq: "H' ! c' = H ! c'" "H' ! b = H ! b" and lt: "\<forall>x < c'. H' ! x = H ! x"
    using nested.prems(3) by auto
  have "attached H' cs m c'" using nested.IH[OF nested.prems(1,2) lt] .
  then show ?case
    using nested.hyps eq nested.prems(2) by (auto intro!: attached.nested[of H' cs m c' b c])
qed

lemma attached_grow:
  assumes "attached H cs m c" "length H' = length H"
    "\<forall>x < length H. \<not> is_Block (H ! x) \<longrightarrow> H' ! x = H ! x"
    "\<forall>x < length H. is_Block (H ! x) \<longrightarrow>
       is_Block (H' ! x) \<and> set (children (H ! x)) \<subseteq> set (children (H' ! x))"
  shows "attached H' cs m c"
  using assms
proof (induction rule: attached.induct)
  case (top c)
  then show ?case by (auto intro: attached.top)
next
  case (nested c' b c)
  then have "attached H' cs m c'" by simp
  moreover have "H' ! c' = H ! c'" using nested by auto
  moreover have "is_Block (H' ! b)" "Ref c \<in> set (children (H' ! b))" using nested by auto
  ultimately show ?case
    using nested.hyps nested.prems(1) by (auto intro!: attached.nested[of H' cs m c' b c])
qed

subsection \<open>Allocation\<close>

lemma length_new_heap [simp]:
  "length (snd (new_Component k p col H)) = Suc (length H + arity k)"
  by (simp add: new_Component_def Let_def)

lemma new_heap_old [simp]:
  "r < length H \<Longrightarrow> snd (new_Component k p col H) ! r = H ! r"
  by (simp add: new_Component_def Let_def nth_append)

lemma new_heap_component [simp]:
  "snd (new_Component k p col H) ! length H =
     Component k (map (\<lambda>i. Ref (Suc (length H) + i)) [0..<arity k]) p (initial_color k col)"
  by (simp add: new_Component_def Let_def nth_append)

lemma new_heap_block:
  "length H < r \<Longrightarrow> r < Suc (length H + arity k) \<Longrightarrow>
   snd (new_Component k p col H) ! r = Block [] (Ref (length H))"
  by (auto simp: new_Component_def Let_def nth_append nth_Cons split: nat.splits)

lemma fst_new_Component [simp]: "fst (new_Component k p col H) = Ref (length H)"
  by (simp add: new_Component_def Let_def)

lemma wf_block_ext:
  assumes "wf_block H r" "r < length H" "length H \<le> length H'" "\<forall>x < length H. H' ! x = H ! x"
  shows "wf_block H' r"
proof -
  from assms(1) obtain c where c: "parent (H ! r) = Ref c" "c < r" "\<not> is_Block (H ! c)"
      "Ref r \<in> set (blocks (H ! c))"
    and alt: "if cls (H ! c) = TextComponent then
              (\<forall>ch \<in> set (children (H ! r)). \<exists>t. ch = Str t)
            else
              distinct (children (H ! r))
              \<and> (\<forall>ch \<in> set (children (H ! r)).
                    \<exists>x. ch = Ref x \<and> r < x \<and> x < length H \<and> \<not> is_Block (H ! x)
                      \<and> parent (H ! x) = Ref r)"
    unfolding wf_block_def by blast
  have r: "H' ! r = H ! r" and cc: "H' ! c = H ! c" using assms(2,4) c(2) by auto
  show ?thesis
    unfolding wf_block_def
  proof (intro exI[of _ c] conjI)
    show "if cls (H' ! c) = TextComponent then
              (\<forall>ch \<in> set (children (H' ! r)). \<exists>t. ch = Str t)
            else
              distinct (children (H' ! r))
              \<and> (\<forall>ch \<in> set (children (H' ! r)).
                    \<exists>x. ch = Ref x \<and> r < x \<and> x < length H' \<and> \<not> is_Block (H' ! x)
                      \<and> parent (H' ! x) = Ref r)"
      using alt assms(3,4) unfolding r cc by (auto split: if_splits) 
  qed (use c r cc in simp_all)
qed

lemma wf_component_ext:
  assumes "wf_component H r" "r < length H" "length H \<le> length H'" "\<forall>x < length H. H' ! x = H ! x"
  shows "wf_component H' r"
proof -
  have r: "H' ! r = H ! r" using assms(2,4) by auto
  show ?thesis
    using assms(1,3,4) unfolding wf_component_def r by fastforce
qed

lemma wf_heap_new_Component:
  assumes "wf_heap H" "leaf_cls k \<or> 0 < arity k"
  shows "wf_heap (snd (new_Component k p col H))"
  unfolding wf_heap_def
proof (intro allI impI)
  let ?H = "snd (new_Component k p col H)"
  let ?n = "length H"
  fix r assume r: "r < length ?H"
  consider "r < ?n" | "r = ?n" | "?n < r" by linarith
  then show "if is_Block (?H ! r) then wf_block ?H r else wf_component ?H r"
  proof cases
    case 1
    then have "if is_Block (H ! r) then wf_block H r else wf_component H r"
      using assms(1) by (simp add: wf_heap_def)
    then show ?thesis
      using 1 wf_block_ext[of H r ?H] wf_component_ext[of H r ?H] by (simp split: if_splits)
  next
    case 2
    have "wf_component ?H ?n"
      unfolding wf_component_def
    proof (intro conjI ballI)
      show "distinct (blocks (?H ! ?n))" by (simp add: distinct_map inj_on_def)
      fix b assume "b \<in> set (blocks (?H ! ?n))"
      then obtain i where i: "i < arity k" "b = Ref (Suc (?n + i))" by auto
      then show "\<exists>x. b = Ref x \<and> ?n < x \<and> x < length ?H \<and> is_Block (?H ! x)
          \<and> parent (?H ! x) = Ref ?n"
        using new_heap_block[of H "Suc (?n + i)" k p col] by simp
    qed (use assms(2) in simp_all)
    with 2 show ?thesis by simp
  next
    case 3
    then have blk: "?H ! r = Block [] (Ref ?n)" using r new_heap_block[of H r k p col] by simp
    from 3 r obtain i where i: "r = Suc (?n + i)" "i < arity k"
      by (metis Suc_leI add_Suc_right add_Suc_shift le_Suc_ex length_new_heap less_Suc_eq
          nat_add_left_cancel_less not_less_eq)
    have "wf_block ?H r"
      unfolding wf_block_def
      by (rule exI[of _ ?n]) (use blk 3 i in auto)
    with blk show ?thesis by simp
  qed
qed

lemma wf_top_ext:
  assumes "wf_top H cs" "length H \<le> length H'" "\<forall>x < length H. H' ! x = H ! x"
  shows "wf_top H' cs"
  using assms unfolding wf_top_def by fastforce

subsection \<open>Changing the children of one Block\<close>

lemma upd_other [simp]: "r \<noteq> b \<Longrightarrow> (H[b := v]) ! r = H ! r"
  by simp

lemma upd_is_Block:
  "b < length H \<Longrightarrow> is_Block (H ! b) \<Longrightarrow>
   is_Block (H[b := Block chs (parent (H ! b))] ! x) = is_Block (H ! x)"
  by (cases "x = b") simp_all

lemma upd_parent:
  "b < length H \<Longrightarrow> parent (H[b := Block chs (parent (H ! b))] ! x) = parent (H ! x)"
  by (cases "x = b") simp_all

lemma upd_component:
  "\<not> is_Block (H ! x) \<Longrightarrow> is_Block (H ! b) \<Longrightarrow> H[b := v] ! x = H ! x"
  by (cases "x = b") auto

lemma wf_component_upd:
  assumes "wf_component H r" "b < length H" "is_Block (H ! b)" "\<not> is_Block (H ! r)"
  shows "wf_component (H[b := Block chs (parent (H ! b))]) r"
proof -
  have r: "H[b := Block chs (parent (H ! b))] ! r = H ! r"
    using assms(3,4) by (rule upd_component[rotated])
  show ?thesis
    using assms(1) unfolding wf_component_def r
    by (auto simp: upd_is_Block[OF assms(2,3)] upd_parent[OF assms(2)])
qed

lemma wf_block_upd:
  assumes "wf_block H r" "b < length H" "is_Block (H ! b)" "r \<noteq> b"
  shows "wf_block (H[b := Block chs (parent (H ! b))]) r"
proof -
  let ?H = "H[b := Block chs (parent (H ! b))]"
  from assms(1) obtain c where c: "parent (H ! r) = Ref c" "c < r" "\<not> is_Block (H ! c)"
      "Ref r \<in> set (blocks (H ! c))"
    and alt: "if cls (H ! c) = TextComponent then
              (\<forall>ch \<in> set (children (H ! r)). \<exists>t. ch = Str t)
            else
              distinct (children (H ! r))
              \<and> (\<forall>ch \<in> set (children (H ! r)).
                    \<exists>x. ch = Ref x \<and> r < x \<and> x < length H \<and> \<not> is_Block (H ! x)
                      \<and> parent (H ! x) = Ref r)"
    unfolding wf_block_def by blast
  have r: "?H ! r = H ! r" using assms(4) by simp
  have cc: "?H ! c = H ! c" using c(3) assms(3) by (rule upd_component)
  show ?thesis
    unfolding wf_block_def
  proof (intro exI[of _ c] conjI)
    show "if cls (?H ! c) = TextComponent then
              (\<forall>ch \<in> set (children (?H ! r)). \<exists>t. ch = Str t)
            else
              distinct (children (?H ! r))
              \<and> (\<forall>ch \<in> set (children (?H ! r)).
                    \<exists>x. ch = Ref x \<and> r < x \<and> x < length ?H \<and> \<not> is_Block (?H ! x)
                      \<and> parent (?H ! x) = Ref r)"
      using alt unfolding r cc
      by (auto simp: upd_is_Block[OF assms(2,3)] upd_parent[OF assms(2)] split: if_splits)
  qed (use c r cc in simp_all)
qed

lemma wf_heap_upd:
  assumes "wf_heap H" "b < length H" "is_Block (H ! b)"
    and "wf_block (H[b := Block chs (parent (H ! b))]) b"
  shows "wf_heap (H[b := Block chs (parent (H ! b))])"
  unfolding wf_heap_def
proof (intro allI impI)
  let ?H = "H[b := Block chs (parent (H ! b))]"
  fix r assume "r < length ?H"
  then have r: "r < length H" by simp
  show "if is_Block (?H ! r) then wf_block ?H r else wf_component ?H r"
  proof (cases "r = b")
    case True
    with assms(2,4) show ?thesis by simp
  next
    case False
    from assms(1) r have "if is_Block (H ! r) then wf_block H r else wf_component H r"
      by (simp add: wf_heap_def)
    then show ?thesis
      using False wf_block_upd[OF _ assms(2,3) False, of chs]
        wf_component_upd[OF _ assms(2,3), of r chs]
      by (simp split: if_splits)
  qed
qed

text \<open>The Block of a Component that is not a text leaf, with new children.\<close>

lemma wf_block_children:
  assumes "wf_heap H" "c < length H" "\<not> is_Block (H ! c)" "Ref b \<in> set (blocks (H ! c))"
    and "cls (H ! c) \<noteq> TextComponent"
    and "distinct chs"
    and "\<forall>ch \<in> set chs. \<exists>x. ch = Ref x \<and> b < x \<and> x < length H \<and> \<not> is_Block (H ! x)
            \<and> parent (H ! x) = Ref b"
  shows "wf_block (H[b := Block chs (parent (H ! b))]) b"
proof -
  let ?H = "H[b := Block chs (parent (H ! b))]"
  note b = block_of_component[OF assms(1-4)]
  have cc: "?H ! c = H ! c" using assms(3) b by (auto intro: upd_component)
  have bb: "?H ! b = Block chs (Ref c)" using b by simp
  show ?thesis
    unfolding wf_block_def
  proof (intro exI[of _ c] conjI)
    show "if cls (?H ! c) = TextComponent then
              (\<forall>ch \<in> set (children (?H ! b)). \<exists>t. ch = Str t)
            else
              distinct (children (?H ! b))
              \<and> (\<forall>ch \<in> set (children (?H ! b)).
                    \<exists>x. ch = Ref x \<and> b < x \<and> x < length ?H \<and> \<not> is_Block (?H ! x)
                      \<and> parent (?H ! x) = Ref b)"
      unfolding cc bb using assms(5,6,7) b
      by (auto simp: upd_is_Block upd_parent)
  qed (use b assms cc bb in simp_all)
qed

lemma wf_top_upd:
  assumes "wf_top H cs" "b < length H" "is_Block (H ! b)"
  shows "wf_top (H[b := Block chs (parent (H ! b))]) cs"
  using assms(1) unfolding wf_top_def
  by (auto simp: upd_is_Block[OF assms(2,3)] upd_parent[OF assms(2)])

lemma Block_addChild_eq:
  "b < length H \<Longrightarrow> is_Block (H ! b) \<Longrightarrow>
   Block_addChild H (Ref b) v i =
     Some (H[b := Block (splice_insert i v (children (H ! b))) (parent (H ! b))])"
  by (cases "H ! b") (simp_all add: Block_addChild_def deref_def)

lemma Block_removeChild_eq:
  "b < length H \<Longrightarrow> is_Block (H ! b) \<Longrightarrow>
   Block_removeChild H (Ref b) i =
     Some (H[b := Block (splice_remove i (children (H ! b))) (parent (H ! b))])"
  by (cases "H ! b") (simp_all add: Block_removeChild_def deref_def)

subsection \<open>What a resting cursor sees\<close>

lemma inside_block:
  assumes "wf_heap (heap s)" "inside s c b j m"
  shows "c < b \<and> b < length (heap s) \<and> is_Block (heap s ! b) \<and> parent (heap s ! b) = Ref c"
  using assms block_of_component[of "heap s" c b] by (simp add: inside_def)

lemma inside_reads:
  assumes "wf_heap (heap s)" "inside s c b j m"
  shows "children_of (heap s) (Ref b) = Some (children (heap s ! b))"
    and "blocks_of (heap s) (Ref c) = Some (blocks (heap s ! c))"
    and "parent_of (heap s) (Ref c) = Some (parent (heap s ! c))"
    and "\<not> is_leaf (heap s) (Ref c)"
  using inside_block[OF assms] assms(2)
  by (simp_all add: inside_def children_of_Block blocks_of_Component parent_of_Ref
      is_leaf_Component)

lemma inside_children:
  assumes "wf_heap (heap s)" "inside s c b j m"
  shows "distinct (children (heap s ! b))"
    and "i < length (children (heap s ! b)) \<Longrightarrow>
           \<exists>x. children (heap s ! b) ! i = Ref x \<and> b < x \<and> x < length (heap s)
             \<and> \<not> is_Block (heap s ! x) \<and> parent (heap s ! x) = Ref b"
proof -
  have c: "c < length (heap s)" "\<not> is_Block (heap s ! c)" "Ref b \<in> set (blocks (heap s ! c))"
    "cls (heap s ! c) \<noteq> TextComponent"
    using assms(2) by (auto simp: inside_def)
  show "distinct (children (heap s ! b))"
    using children_of_nonleaf(1)[OF assms(1) c] .
  assume "i < length (children (heap s ! b))"
  then have "children (heap s ! b) ! i \<in> set (children (heap s ! b))" by simp
  from children_of_nonleaf(2)[OF assms(1) c this]
  show "\<exists>x. children (heap s ! b) ! i = Ref x \<and> b < x \<and> x < length (heap s)
             \<and> \<not> is_Block (heap s ! x) \<and> parent (heap s ! x) = Ref b" .
qed

lemma inside_blocks:
  assumes "wf_heap (heap s)" "inside s c b j m"
  shows "distinct (blocks (heap s ! c))"
    and "\<exists>i < length (blocks (heap s ! c)). blocks (heap s ! c) ! i = Ref b"
    and "i < length (blocks (heap s ! c)) \<Longrightarrow>
           \<exists>x. blocks (heap s ! c) ! i = Ref x \<and> c < x \<and> x < length (heap s)
             \<and> is_Block (heap s ! x) \<and> parent (heap s ! x) = Ref c"
proof -
  have c: "c < length (heap s)" "\<not> is_Block (heap s ! c)" "Ref b \<in> set (blocks (heap s ! c))"
    using assms(2) by (auto simp: inside_def)
  note w = wf_heap_component[OF assms(1) c(1,2)]
  show "distinct (blocks (heap s ! c))" using w by (simp add: wf_component_def)
  show "\<exists>i < length (blocks (heap s ! c)). blocks (heap s ! c) ! i = Ref b"
    using c(3) by (simp add: in_set_conv_nth)
  assume "i < length (blocks (heap s ! c))"
  then have "blocks (heap s ! c) ! i \<in> set (blocks (heap s ! c))" by simp
  with w show "\<exists>x. blocks (heap s ! c) ! i = Ref x \<and> c < x \<and> x < length (heap s)
             \<and> is_Block (heap s ! x) \<and> parent (heap s ! x) = Ref c"
    by (auto simp: wf_component_def)
qed

text \<open>The first and the last Block of a Component that is not a leaf.\<close>

lemma first_block:
  assumes "wf_heap H" "x < length H" "\<not> is_Block (H ! x)" "\<not> leaf_cls (cls (H ! x))"
  shows "\<exists>b. nth_js (blocks (H ! x)) 0 = Ref b \<and> blocks (H ! x) ! 0 = Ref b
           \<and> Ref b \<in> set (blocks (H ! x))"
proof -
  have ne: "blocks (H ! x) \<noteq> []" using nonleaf_has_block[OF assms] .
  then have mem: "blocks (H ! x) ! 0 \<in> set (blocks (H ! x))" by simp
  from blocks_are_refs[OF assms(1-3) mem] obtain b where b: "blocks (H ! x) ! 0 = Ref b" ..
  with mem ne show ?thesis by (simp add: nth_js_zero)
qed

lemma last_block:
  assumes "wf_heap H" "x < length H" "\<not> is_Block (H ! x)" "\<not> leaf_cls (cls (H ! x))"
  shows "\<exists>b. nth_js (blocks (H ! x)) (int (length (blocks (H ! x))) - 1) = Ref b
           \<and> last (blocks (H ! x)) = Ref b \<and> Ref b \<in> set (blocks (H ! x))"
proof -
  have ne: "blocks (H ! x) \<noteq> []" using nonleaf_has_block[OF assms] .
  then have mem: "last (blocks (H ! x)) \<in> set (blocks (H ! x))" by simp
  from blocks_are_refs[OF assms(1-3) mem] obtain b where b: "last (blocks (H ! x)) = Ref b" ..
  with mem ne show ?thesis by (simp add: nth_js_last)
qed

text \<open>A Component one of whose Blocks holds a Component is not a leaf.\<close>

lemma owner_not_leaf:
  assumes "wf_heap H" "c < length H" "\<not> is_Block (H ! c)" "Ref b \<in> set (blocks (H ! c))"
    and "Ref x \<in> set (children (H ! b))"
  shows "\<not> leaf_cls (cls (H ! c))"
proof
  assume leaf: "leaf_cls (cls (H ! c))"
  note b = block_of_component[OF assms(1-4)]
  from wf_heap_component[OF assms(1-3)] have len: "length (blocks (H ! c)) = arity (cls (H ! c))"
    by (simp add: wf_component_def)
  from leaf show False
  proof (cases "cls (H ! c)")
    case TextComponent
    from wf_heap_block[OF assms(1)] b have "wf_block H b" by simp
    with b TextComponent assms(5) show False by (auto simp: wf_block_def)
  next
    case (MJXGUISymbol d)
    with len assms(4) show False by simp
  qed simp_all
qed

subsection \<open>The branches of seekRight\<close>

lemma seekRight_top_end:
  assumes "at_top s m" "m = length (components s)"
  shows "seekRight s = Some s"
  using assms by (simp add: seekRight_def at_top_def)

lemma seekRight_top_leaf:
  assumes "wf_heap (heap s)" "wf_top (heap s) (components s)" "at_top s m"
    and "m < length (components s)" "components s ! m = Ref x" "leaf_cls (cls (heap s ! x))"
  shows "seekRight s = Some (s\<lparr>position := of_nat (Suc m) - 1 / 2\<rparr>)"
proof -
  note x = wf_top_nth[OF assms(2,4,5)]
  have "is_leaf (heap s) (Ref x)" using x assms(6) by (simp add: is_leaf_Component)
  then show ?thesis
    using assms(3,4,5) by (simp add: seekRight_def at_top_def Let_def)
qed

lemma seekRight_top_enter:
  assumes "wf_heap (heap s)" "wf_top (heap s) (components s)" "at_top s m"
    and "m < length (components s)" "components s ! m = Ref x" "\<not> leaf_cls (cls (heap s ! x))"
  shows "seekRight s =
     Some (s\<lparr>position := of_nat m, component := Ref x, block := blocks (heap s ! x) ! 0\<rparr>)"
proof -
  note x = wf_top_nth[OF assms(2,4,5)]
  have nl: "\<not> is_leaf (heap s) (Ref x)" using x assms(6) by (simp add: is_leaf_Component)
  have bs: "blocks_of (heap s) (Ref x) = Some (blocks (heap s ! x))"
    using x by (simp add: blocks_of_Component)
  from first_block[OF assms(1) _ _ assms(6)] x
  have "nth_js (blocks (heap s ! x)) 0 = blocks (heap s ! x) ! 0" by auto
  then show ?thesis
    using assms(3,4,5) nl bs by (simp add: seekRight_def at_top_def Let_def)
qed

lemma seekRight_skip:
  assumes "wf_heap (heap s)" "inside s c b j m"
    and "j < length (children (heap s ! b))" "children (heap s ! b) ! j = Ref x"
    and "leaf_cls (cls (heap s ! x))"
  shows "seekRight s = Some (s\<lparr>child := of_nat (Suc j) - 1 / 2\<rparr>)"
proof -
  from inside_children(2)[OF assms(1,2,3)] assms(4)
  have x: "x < length (heap s)" "\<not> is_Block (heap s ! x)" by auto
  have lf: "is_leaf (heap s) (Ref x)" using x assms(5) by (simp add: is_leaf_Component)
  show ?thesis
    using assms(2,3,4) lf inside_reads[OF assms(1,2)]
    by (simp add: seekRight_def inside_def Let_def)
qed

lemma seekRight_enter:
  assumes "wf_heap (heap s)" "inside s c b j m"
    and "j < length (children (heap s ! b))" "children (heap s ! b) ! j = Ref x"
    and "\<not> leaf_cls (cls (heap s ! x))"
  shows "seekRight s =
     Some (s\<lparr>component := Ref x, block := blocks (heap s ! x) ! 0, child := - 1 / 2\<rparr>)"
proof -
  from inside_children(2)[OF assms(1,2,3)] assms(4)
  have x: "x < length (heap s)" "\<not> is_Block (heap s ! x)" by auto
  have nl: "\<not> is_leaf (heap s) (Ref x)" using x assms(5) by (simp add: is_leaf_Component)
  have bs: "blocks_of (heap s) (Ref x) = Some (blocks (heap s ! x))"
    using x by (simp add: blocks_of_Component)
  from first_block[OF assms(1) x assms(5)]
  have "nth_js (blocks (heap s ! x)) 0 = blocks (heap s ! x) ! 0" by auto
  then show ?thesis
    using assms(2,3,4) nl bs inside_reads[OF assms(1,2)]
    by (simp add: seekRight_def inside_def Let_def)
qed

lemma seekRight_next_block:
  assumes "wf_heap (heap s)" "inside s c b j m"
    and "j = length (children (heap s ! b))"
    and "i < length (blocks (heap s ! c))" "blocks (heap s ! c) ! i = Ref b"
    and "Suc i < length (blocks (heap s ! c))"
  shows "seekRight s =
     Some (s\<lparr>block := blocks (heap s ! c) ! Suc i, child := - 1 / 2\<rparr>)"
proof -
  have idx: "indexOf (blocks (heap s ! c)) (Ref b) = int i"
    using indexOf_distinct[OF inside_blocks(1)[OF assms(1,2)] assms(4)] assms(5) by simp
  have nx: "nth_js (blocks (heap s ! c)) (int i + 1) = blocks (heap s ! c) ! Suc i"
    using nth_js_nat[OF assms(6)] by (simp add: add.commute)
  show ?thesis
    using assms(2,3,6) idx nx inside_reads[OF assms(1,2)]
    by (simp add: seekRight_def inside_def Let_def)
qed

lemma seekRight_exit_top:
  assumes "wf_heap (heap s)" "inside s c b j m"
    and "j = length (children (heap s ! b))"
    and "last (blocks (heap s ! c)) = Ref b"
    and "parent (heap s ! c) = Null"
  shows "seekRight s =
     Some (s\<lparr>component := Null, block := Null, child := - 1 / 2,
             position := of_nat (Suc m) - 1 / 2\<rparr>)"
proof -
  let ?bs = "blocks (heap s ! c)"
  have ne: "?bs \<noteq> []" using assms(2) by (auto simp: inside_def)
  then have l: "length ?bs - 1 < length ?bs" "?bs ! (length ?bs - 1) = Ref b"
    using assms(4) by (simp_all add: last_conv_nth)
  have idx: "indexOf ?bs (Ref b) = int (length ?bs - 1)"
    using indexOf_distinct[OF inside_blocks(1)[OF assms(1,2)] l(1)] l(2) by simp
  have "int (length ?bs - 1) = int (length ?bs) - 1" using ne by (simp add: of_nat_diff Suc_leI)
  with idx have idx': "indexOf ?bs (Ref b) = int (length ?bs) - 1" by simp
  show ?thesis
    using assms(2,3,5) idx' inside_reads[OF assms(1,2)]
    by (simp add: seekRight_def inside_def Let_def)
qed

lemma seekRight_exit_nested:
  assumes "wf_heap (heap s)" "inside s c b j m"
    and "j = length (children (heap s ! b))"
    and "last (blocks (heap s ! c)) = Ref b"
    and "parent (heap s ! c) = Ref pb" "pb < length (heap s)" "is_Block (heap s ! pb)"
    and "i < length (children (heap s ! pb))" "children (heap s ! pb) ! i = Ref c"
    and "distinct (children (heap s ! pb))"
  shows "seekRight s =
     Some (s\<lparr>block := Ref pb, child := of_nat (Suc i) - 1 / 2,
             component := parent (heap s ! pb)\<rparr>)"
proof -
  let ?bs = "blocks (heap s ! c)"
  have ne: "?bs \<noteq> []" using assms(2) by (auto simp: inside_def)
  then have l: "length ?bs - 1 < length ?bs" "?bs ! (length ?bs - 1) = Ref b"
    using assms(4) by (simp_all add: last_conv_nth)
  have idx: "indexOf ?bs (Ref b) = int (length ?bs - 1)"
    using indexOf_distinct[OF inside_blocks(1)[OF assms(1,2)] l(1)] l(2) by simp
  have "int (length ?bs - 1) = int (length ?bs) - 1" using ne by (simp add: of_nat_diff Suc_leI)
  with idx have idx': "indexOf ?bs (Ref b) = int (length ?bs) - 1" by simp
  have pidx: "indexOf (children (heap s ! pb)) (Ref c) = int i"
    using indexOf_distinct[OF assms(10,8)] assms(9) by simp
  show ?thesis
    using assms(2,3,5,6,7) idx' pidx inside_reads[OF assms(1,2)]
    by (simp add: seekRight_def inside_def Let_def children_of_Block parent_of_Ref)
qed

subsection \<open>The branches of seekLeft\<close>

lemma seekLeft_top_start:
  assumes "at_top s 0"
  shows "seekLeft s = Some s"
  using assms by (simp add: seekLeft_def at_top_def)

lemma seekLeft_top_leaf:
  assumes "wf_heap (heap s)" "wf_top (heap s) (components s)" "at_top s (Suc m)"
    and "components s ! m = Ref x" "leaf_cls (cls (heap s ! x))"
  shows "seekLeft s = Some (s\<lparr>position := of_nat m - 1 / 2\<rparr>)"
proof -
  have m: "m < length (components s)" using assms(3) by (simp add: at_top_def)
  note x = wf_top_nth[OF assms(2) m assms(4)]
  have "is_leaf (heap s) (Ref x)" using x assms(5) by (simp add: is_leaf_Component)
  then show ?thesis
    using assms(3,4) m by (simp add: seekLeft_def at_top_def Let_def)
qed

lemma seekLeft_top_enter:
  assumes "wf_heap (heap s)" "wf_top (heap s) (components s)" "at_top s (Suc m)"
    and "components s ! m = Ref x" "\<not> leaf_cls (cls (heap s ! x))"
    and "last (blocks (heap s ! x)) = Ref b"
  shows "seekLeft s =
     Some (s\<lparr>position := of_nat m, component := Ref x, block := Ref b,
             child := of_nat (length (children (heap s ! b))) - 1 / 2\<rparr>)"
proof -
  have m: "m < length (components s)" using assms(3) by (simp add: at_top_def)
  note x = wf_top_nth[OF assms(2) m assms(4)]
  have nl: "\<not> is_leaf (heap s) (Ref x)" using x assms(5) by (simp add: is_leaf_Component)
  have bs: "blocks_of (heap s) (Ref x) = Some (blocks (heap s ! x))"
    using x by (simp add: blocks_of_Component)
  from last_block[OF assms(1) _ _ assms(5)] x assms(6)
  have lb: "nth_js (blocks (heap s ! x)) (int (length (blocks (heap s ! x))) - 1) = Ref b"
    and mem: "Ref b \<in> set (blocks (heap s ! x))" by auto
  from block_of_component[OF assms(1) _ _ mem] x
  have ch: "children_of (heap s) (Ref b) = Some (children (heap s ! b))"
    by (simp add: children_of_Block)
  show ?thesis
    using assms(3,4) m nl bs lb ch by (simp add: seekLeft_def at_top_def Let_def)
qed

lemma seekLeft_skip:
  assumes "wf_heap (heap s)" "inside s c b (Suc j) m"
    and "children (heap s ! b) ! j = Ref x" "leaf_cls (cls (heap s ! x))"
  shows "seekLeft s = Some (s\<lparr>child := of_nat j - 1 / 2\<rparr>)"
proof -
  have j: "j < length (children (heap s ! b))" using assms(2) by (simp add: inside_def)
  from inside_children(2)[OF assms(1,2) j] assms(3)
  have x: "x < length (heap s)" "\<not> is_Block (heap s ! x)" by auto
  have lf: "is_leaf (heap s) (Ref x)" using x assms(4) by (simp add: is_leaf_Component)
  show ?thesis
    using assms(2,3) j lf inside_reads[OF assms(1,2)]
    by (simp add: seekLeft_def inside_def Let_def)
qed

lemma seekLeft_enter:
  assumes "wf_heap (heap s)" "inside s c b (Suc j) m"
    and "children (heap s ! b) ! j = Ref x" "\<not> leaf_cls (cls (heap s ! x))"
    and "last (blocks (heap s ! x)) = Ref b'"
  shows "seekLeft s =
     Some (s\<lparr>component := Ref x, block := Ref b',
             child := of_nat (length (children (heap s ! b'))) - 1 / 2\<rparr>)"
proof -
  have j: "j < length (children (heap s ! b))" using assms(2) by (simp add: inside_def)
  from inside_children(2)[OF assms(1,2) j] assms(3)
  have x: "x < length (heap s)" "\<not> is_Block (heap s ! x)" by auto
  have nl: "\<not> is_leaf (heap s) (Ref x)" using x assms(4) by (simp add: is_leaf_Component)
  have bs: "blocks_of (heap s) (Ref x) = Some (blocks (heap s ! x))"
    using x by (simp add: blocks_of_Component)
  from last_block[OF assms(1) x assms(4)] assms(5)
  have lb: "nth_js (blocks (heap s ! x)) (int (length (blocks (heap s ! x))) - 1) = Ref b'"
    and mem: "Ref b' \<in> set (blocks (heap s ! x))" by auto
  from block_of_component[OF assms(1) x mem]
  have ch: "children_of (heap s) (Ref b') = Some (children (heap s ! b'))"
    by (simp add: children_of_Block)
  show ?thesis
    using assms(2,3) j nl bs lb ch inside_reads[OF assms(1,2)]
    by (simp add: seekLeft_def inside_def Let_def)
qed

lemma seekLeft_prev_block:
  assumes "wf_heap (heap s)" "inside s c b 0 m"
    and "Suc i < length (blocks (heap s ! c))" "blocks (heap s ! c) ! Suc i = Ref b"
    and "blocks (heap s ! c) ! i = Ref b'"
  shows "seekLeft s =
     Some (s\<lparr>block := Ref b', child := of_nat (length (children (heap s ! b'))) - 1 / 2\<rparr>)"
proof -
  have idx: "indexOf (blocks (heap s ! c)) (Ref b) = int (Suc i)"
    using indexOf_distinct[OF inside_blocks(1)[OF assms(1,2)] assms(3)] assms(4) by simp
  have i: "i < length (blocks (heap s ! c))" using assms(3) by simp
  have nx: "nth_js (blocks (heap s ! c)) (int i) = Ref b'"
    using nth_js_nat[OF i] assms(5) by simp
  from inside_blocks(3)[OF assms(1,2) i] assms(5)
  have ch: "children_of (heap s) (Ref b') = Some (children (heap s ! b'))"
    by (auto simp: children_of_Block)
  show ?thesis
    using assms(2) idx nx ch inside_reads[OF assms(1,2)]
    by (simp add: seekLeft_def inside_def Let_def)
qed

lemma seekLeft_exit_top:
  assumes "wf_heap (heap s)" "inside s c b 0 m"
    and "blocks (heap s ! c) ! 0 = Ref b"
    and "parent (heap s ! c) = Null"
  shows "seekLeft s =
     Some (s\<lparr>component := Null, block := Null, child := - 1 / 2,
             position := of_nat m - 1 / 2\<rparr>)"
proof -
  let ?bs = "blocks (heap s ! c)"
  have ne: "0 < length ?bs" using assms(2) by (auto simp: inside_def)
  have idx: "indexOf ?bs (Ref b) = 0"
    using indexOf_distinct[OF inside_blocks(1)[OF assms(1,2)] ne] assms(3) by simp
  show ?thesis
    using assms(2,4) idx inside_reads[OF assms(1,2)]
    by (simp add: seekLeft_def inside_def Let_def)
qed

lemma seekLeft_exit_nested:
  assumes "wf_heap (heap s)" "inside s c b 0 m"
    and "blocks (heap s ! c) ! 0 = Ref b"
    and "parent (heap s ! c) = Ref pb" "pb < length (heap s)" "is_Block (heap s ! pb)"
    and "i < length (children (heap s ! pb))" "children (heap s ! pb) ! i = Ref c"
    and "distinct (children (heap s ! pb))"
  shows "seekLeft s =
     Some (s\<lparr>block := Ref pb, child := of_nat i - 1 / 2, component := parent (heap s ! pb)\<rparr>)"
proof -
  let ?bs = "blocks (heap s ! c)"
  have ne: "0 < length ?bs" using assms(2) by (auto simp: inside_def)
  have idx: "indexOf ?bs (Ref b) = 0"
    using indexOf_distinct[OF inside_blocks(1)[OF assms(1,2)] ne] assms(3) by simp
  have pidx: "indexOf (children (heap s ! pb)) (Ref c) = int i"
    using indexOf_distinct[OF assms(9,7)] assms(8) by simp
  show ?thesis
    using assms(2,4,5,6) idx pidx inside_reads[OF assms(1,2)]
    by (simp add: seekLeft_def inside_def Let_def children_of_Block parent_of_Ref)
qed

lemma wf_at_top: "wf_heap (heap s) \<Longrightarrow> wf_top (heap s) (components s) \<Longrightarrow> at_top s m \<Longrightarrow> wf s"
  by (auto simp: wf_def)

lemma wf_inside:
  "wf_heap (heap s) \<Longrightarrow> wf_top (heap s) (components s) \<Longrightarrow> inside s c b j m \<Longrightarrow> wf s"
  by (auto simp: wf_def)

lemma at_top_eq:
  "at_top s m \<Longrightarrow>
   s\<lparr>component := Null, block := Null, child := - 1 / 2, position := of_nat m - 1 / 2\<rparr> = s"
  by (simp add: at_top_def)

lemma inside_eq:
  "inside s c b j m \<Longrightarrow>
   s\<lparr>component := Ref c, block := Ref b, child := of_nat j - 1 / 2, position := of_nat m\<rparr> = s"
  by (simp add: inside_def)

text \<open>seekRight on a resting cursor: it returns a resting cursor over the same tree, and
  unless the cursor was at the right end of the document, seekLeft leads back.\<close>

lemma seekRight_step:
  assumes "wf s"
  shows "\<exists>s1. seekRight s = Some s1 \<and> wf s1 \<and> heap s1 = heap s \<and> components s1 = components s
           \<and> (position s < of_nat (length (components s)) - 1 / 2 \<longrightarrow> seekLeft s1 = Some s)"
proof -
  let ?H = "heap s" and ?cs = "components s"
  from assms have H: "wf_heap ?H" and T: "wf_top ?H ?cs" by (simp_all add: wf_def)
  from assms consider m where "at_top s m" | c b j m where "inside s c b j m"
    by (auto simp: wf_def)
  then show ?thesis
  proof cases
    case 1
    show ?thesis
    proof (cases "m = length ?cs")
      case True
      have "seekRight s = Some s" using seekRight_top_end[OF 1 True] .
      moreover have "\<not> position s < of_nat (length ?cs) - 1 / 2"
        using 1 True by (simp add: at_top_def)
      ultimately show ?thesis using assms by simp
    next
      case False
      with 1 have m: "m < length ?cs" by (simp add: at_top_def)
      from wf_top_refs[OF T m] obtain x where x: "?cs ! m = Ref x" ..
      note xv = wf_top_nth[OF T m x]
      show ?thesis
      proof (cases "leaf_cls (cls (?H ! x))")
        case True
        let ?s1 = "s\<lparr>position := of_nat (Suc m) - 1 / 2\<rparr>"
        have r: "seekRight s = Some ?s1" using seekRight_top_leaf[OF H T 1 m x True] .
        have t1: "at_top ?s1 (Suc m)" using 1 m by (simp add: at_top_def)
        have "seekLeft ?s1 = Some (?s1\<lparr>position := of_nat m - 1 / 2\<rparr>)"
          using seekLeft_top_leaf[of ?s1 m x] H T t1 x True by simp
        also have "?s1\<lparr>position := of_nat m - 1 / 2\<rparr> = s" using 1 by (simp add: at_top_def)
        finally show ?thesis using r t1 H T by (simp add: wf_at_top)
      next
        case False
        from first_block[OF H _ _ False] xv obtain b0 where
          b0: "blocks (?H ! x) ! 0 = Ref b0" "Ref b0 \<in> set (blocks (?H ! x))" by auto
        let ?s1 = "s\<lparr>position := of_nat m, component := Ref x, block := Ref b0\<rparr>"
        have r: "seekRight s = Some ?s1"
          using seekRight_top_enter[OF H T 1 m x False] b0 by simp
        have i1: "inside ?s1 x b0 0 m"
          using 1 m x xv False b0 by (simp add: inside_def at_top_def attached.top)
        have "seekLeft ?s1 =
            Some (?s1\<lparr>component := Null, block := Null, child := - 1 / 2,
                      position := of_nat m - 1 / 2\<rparr>)"
          using seekLeft_exit_top[of ?s1 x b0 m] H i1 b0 xv by simp
        also have "?s1\<lparr>component := Null, block := Null, child := - 1 / 2,
                      position := of_nat m - 1 / 2\<rparr> = s"
          using 1 by (simp add: at_top_def)
        finally show ?thesis using r i1 H T wf_inside[of ?s1 x b0 0 m] by simp
      qed
    qed
  next
    case 2
    note blk = inside_block[OF H 2]
    have cv: "c < length ?H" "\<not> is_Block (?H ! c)" "\<not> leaf_cls (cls (?H ! c))"
      "Ref b \<in> set (blocks (?H ! c))" "attached ?H ?cs m c" "m < length ?cs"
      using 2 by (simp_all add: inside_def)
    have notend: "position s < of_nat (length ?cs) - 1 / 2"
      using 2 by (simp add: inside_def not_le[symmetric])
    show ?thesis
    proof (cases "j < length (children (?H ! b))")
      case True
      from inside_children(2)[OF H 2 True] obtain x where
        x: "children (?H ! b) ! j = Ref x" "b < x" "x < length ?H" "\<not> is_Block (?H ! x)"
          "parent (?H ! x) = Ref b" by auto
      show ?thesis
      proof (cases "leaf_cls (cls (?H ! x))")
        case leaf: True
        let ?s1 = "s\<lparr>child := of_nat (Suc j) - 1 / 2\<rparr>"
        have r: "seekRight s = Some ?s1" using seekRight_skip[OF H 2 True x(1) leaf] .
        have i1: "inside ?s1 c b (Suc j) m" using 2 True by (simp add: inside_def)
        have "seekLeft ?s1 = Some (?s1\<lparr>child := of_nat j - 1 / 2\<rparr>)"
          using seekLeft_skip[of ?s1 c b j m x] H i1 x(1) leaf by simp
        also have "?s1\<lparr>child := of_nat j - 1 / 2\<rparr> = s" using 2 by (simp add: inside_def)
        finally show ?thesis using r i1 H T wf_inside[of ?s1 c b "Suc j" m] by simp
      next
        case False
        from first_block[OF H x(3,4) False] obtain b0 where
          b0: "blocks (?H ! x) ! 0 = Ref b0" "Ref b0 \<in> set (blocks (?H ! x))" by auto
        let ?s1 = "s\<lparr>component := Ref x, block := Ref b0, child := - 1 / 2\<rparr>"
        have r: "seekRight s = Some ?s1"
          using seekRight_enter[OF H 2 True x(1) False] b0 by simp
        have mem: "Ref x \<in> set (children (?H ! b))" using True x(1) by (metis nth_mem)
        have att: "attached ?H ?cs m x"
          using attached.nested[OF cv(5) cv(1,2,4) _ _ mem] blk by simp
        have i1: "inside ?s1 x b0 0 m"
          using 2 x False b0 att by (simp add: inside_def)
        have "seekLeft ?s1 =
            Some (?s1\<lparr>block := Ref b, child := of_nat j - 1 / 2,
                      component := parent (?H ! b)\<rparr>)"
          using seekLeft_exit_nested[of ?s1 x b0 m b j] H i1 b0 x blk True
            inside_children(1)[OF H 2] by simp
        also have "?s1\<lparr>block := Ref b, child := of_nat j - 1 / 2,
                      component := parent (?H ! b)\<rparr> = s"
          using 2 blk by (simp add: inside_def)
        finally show ?thesis using r i1 H T wf_inside[of ?s1 x b0 0 m] by simp
      qed
    next
      case False
      with 2 have j: "j = length (children (?H ! b))" by (simp add: inside_def)
      from inside_blocks(2)[OF H 2] obtain i where
        i: "i < length (blocks (?H ! c))" "blocks (?H ! c) ! i = Ref b" by auto
      show ?thesis
      proof (cases "Suc i < length (blocks (?H ! c))")
        case True
        from inside_blocks(3)[OF H 2 True] obtain b2 where
          b2: "blocks (?H ! c) ! Suc i = Ref b2" "b2 < length ?H" "is_Block (?H ! b2)" by auto
        let ?s1 = "s\<lparr>block := Ref b2, child := - 1 / 2\<rparr>"
        have r: "seekRight s = Some ?s1"
          using seekRight_next_block[OF H 2 j i True] b2 by simp
        have mem: "Ref b2 \<in> set (blocks (?H ! c))" using True b2(1) by (metis nth_mem)
        have i1: "inside ?s1 c b2 0 m" using 2 mem by (simp add: inside_def)
        have "seekLeft ?s1 =
            Some (?s1\<lparr>block := Ref b,
                      child := of_nat (length (children (?H ! b))) - 1 / 2\<rparr>)"
          using seekLeft_prev_block[of ?s1 c b2 m i b] H i1 True b2 i by simp
        also have "?s1\<lparr>block := Ref b,
                      child := of_nat (length (children (?H ! b))) - 1 / 2\<rparr> = s"
          using 2 j by (simp add: inside_def)
        finally show ?thesis using r i1 H T wf_inside[of ?s1 c b2 0 m] by simp
      next
        case False
        with i have "i = length (blocks (?H ! c)) - 1" by simp
        with i have lst: "last (blocks (?H ! c)) = Ref b"
          by (metis last_conv_nth length_0_conv not_less_zero)
        show ?thesis
        proof (cases "parent (?H ! c) = Null")
          case True
          let ?s1 = "s\<lparr>component := Null, block := Null, child := - 1 / 2,
                        position := of_nat (Suc m) - 1 / 2\<rparr>"
          have r: "seekRight s = Some ?s1" using seekRight_exit_top[OF H 2 j lst True] .
          have t1: "at_top ?s1 (Suc m)" using cv(6) by (simp add: at_top_def)
          have top: "?cs ! m = Ref c" using attached_parent_Null[OF cv(5) H T True] .
          have "seekLeft ?s1 =
              Some (?s1\<lparr>position := of_nat m, component := Ref c, block := Ref b,
                        child := of_nat (length (children (?H ! b))) - 1 / 2\<rparr>)"
            using seekLeft_top_enter[of ?s1 m c b] H T t1 top cv(3) lst by simp
          also have "?s1\<lparr>position := of_nat m, component := Ref c, block := Ref b,
                        child := of_nat (length (children (?H ! b))) - 1 / 2\<rparr> = s"
            using 2 j by (simp add: inside_def)
          finally show ?thesis using r t1 H T wf_at_top[of ?s1 "Suc m"] by simp
        next
          case False
          from attached_parent_Ref[OF cv(5) H T False] obtain c' pb where
            p: "parent (?H ! c) = Ref pb" "attached ?H ?cs m c'" "c' < length ?H"
              "\<not> is_Block (?H ! c')" "Ref pb \<in> set (blocks (?H ! c'))" "pb < length ?H"
              "is_Block (?H ! pb)" "Ref c \<in> set (children (?H ! pb))" "parent (?H ! pb) = Ref c'"
            by blast
          have nl: "\<not> leaf_cls (cls (?H ! c'))" using owner_not_leaf[OF H p(3,4,5,8)] .
          from p(8) obtain i' where
            i': "i' < length (children (?H ! pb))" "children (?H ! pb) ! i' = Ref c"
            by (auto simp: in_set_conv_nth)
          have dist: "distinct (children (?H ! pb))"
            using children_of_nonleaf(1)[OF H p(3,4,5) nonleaf_not_text[OF nl]] .
          let ?s1 = "s\<lparr>block := Ref pb, child := of_nat (Suc i') - 1 / 2, component := Ref c'\<rparr>"
          have r: "seekRight s = Some ?s1"
            using seekRight_exit_nested[OF H 2 j lst p(1,6,7) i' dist] p(9) by simp
          have i1: "inside ?s1 c' pb (Suc i') m"
            using 2 p nl i' by (simp add: inside_def)
          have "seekLeft ?s1 =
              Some (?s1\<lparr>component := Ref c, block := Ref b,
                        child := of_nat (length (children (?H ! b))) - 1 / 2\<rparr>)"
            using seekLeft_enter[of ?s1 c' pb i' m c b] H i1 i' cv(3) lst by simp
          also have "?s1\<lparr>component := Ref c, block := Ref b,
                        child := of_nat (length (children (?H ! b))) - 1 / 2\<rparr> = s"
            using 2 j by (simp add: inside_def)
          finally show ?thesis using r i1 H T wf_inside[of ?s1 c' pb "Suc i'" m] by simp
        qed
      qed
    qed
  qed
qed

text \<open>seekLeft on a resting cursor: it returns a resting cursor over the same tree, and
  unless the cursor was at the left end of the document, seekRight leads back.\<close>

lemma seekLeft_step:
  assumes "wf s"
  shows "\<exists>s1. seekLeft s = Some s1 \<and> wf s1 \<and> heap s1 = heap s \<and> components s1 = components s
           \<and> (- 1 / 2 < position s \<longrightarrow> seekRight s1 = Some s)"
proof -
  let ?H = "heap s" and ?cs = "components s"
  from assms have H: "wf_heap ?H" and T: "wf_top ?H ?cs" by (simp_all add: wf_def)
  from assms consider m where "at_top s m" | c b j m where "inside s c b j m"
    by (auto simp: wf_def)
  then show ?thesis
  proof cases
    case 1
    show ?thesis
    proof (cases m)
      case 0
      have "seekLeft s = Some s" using seekLeft_top_start 1 0 by simp
      moreover have "\<not> - 1 / 2 < position s" using 1 0 by (simp add: at_top_def)
      ultimately show ?thesis using assms by simp
    next
      case (Suc m')
      with 1 have m: "m' < length ?cs" and t: "at_top s (Suc m')" by (simp_all add: at_top_def)
      from wf_top_refs[OF T m] obtain x where x: "?cs ! m' = Ref x" ..
      note xv = wf_top_nth[OF T m x]
      show ?thesis
      proof (cases "leaf_cls (cls (?H ! x))")
        case True
        let ?s1 = "s\<lparr>position := of_nat m' - 1 / 2\<rparr>"
        have r: "seekLeft s = Some ?s1" using seekLeft_top_leaf[OF H T t x True] .
        have t1: "at_top ?s1 m'" using t m by (simp add: at_top_def)
        have "seekRight ?s1 = Some (?s1\<lparr>position := of_nat (Suc m') - 1 / 2\<rparr>)"
          using seekRight_top_leaf[of ?s1 m' x] H T t1 m x True by simp
        also have "?s1\<lparr>position := of_nat (Suc m') - 1 / 2\<rparr> = s" using t by (simp add: at_top_def)
        finally show ?thesis using r t1 H T by (simp add: wf_at_top)
      next
        case False
        from last_block[OF H _ _ False] xv obtain bl where
          bl: "last (blocks (?H ! x)) = Ref bl" "Ref bl \<in> set (blocks (?H ! x))" by auto
        let ?n = "length (children (?H ! bl))"
        let ?s1 = "s\<lparr>position := of_nat m', component := Ref x, block := Ref bl,
                      child := of_nat ?n - 1 / 2\<rparr>"
        have r: "seekLeft s = Some ?s1"
          using seekLeft_top_enter[OF H T t x False bl(1)] .
        have i1: "inside ?s1 x bl ?n m'"
          using t m x xv False bl by (simp add: inside_def at_top_def attached.top)
        have "seekRight ?s1 =
            Some (?s1\<lparr>component := Null, block := Null, child := - 1 / 2,
                      position := of_nat (Suc m') - 1 / 2\<rparr>)"
          using seekRight_exit_top[of ?s1 x bl ?n m'] H i1 bl xv by simp
        also have "?s1\<lparr>component := Null, block := Null, child := - 1 / 2,
                      position := of_nat (Suc m') - 1 / 2\<rparr> = s"
          using t by (simp add: at_top_def)
        finally show ?thesis using r i1 H T wf_inside[of ?s1 x bl ?n m'] by simp
      qed
    qed
  next
    case 2
    note blk = inside_block[OF H 2]
    have cv: "c < length ?H" "\<not> is_Block (?H ! c)" "\<not> leaf_cls (cls (?H ! c))"
      "Ref b \<in> set (blocks (?H ! c))" "attached ?H ?cs m c" "m < length ?cs"
      using 2 by (simp_all add: inside_def)
    show ?thesis
    proof (cases j)
      case (Suc j')
      with 2 have in2: "inside s c b (Suc j') m" and j': "j' < length (children (?H ! b))"
        by (simp_all add: inside_def)
      from inside_children(2)[OF H 2 j'] obtain x where
        x: "children (?H ! b) ! j' = Ref x" "b < x" "x < length ?H" "\<not> is_Block (?H ! x)"
          "parent (?H ! x) = Ref b" by auto
      show ?thesis
      proof (cases "leaf_cls (cls (?H ! x))")
        case leaf: True
        let ?s1 = "s\<lparr>child := of_nat j' - 1 / 2\<rparr>"
        have r: "seekLeft s = Some ?s1" using seekLeft_skip[OF H in2 x(1) leaf] .
        have i1: "inside ?s1 c b j' m" using in2 by (simp add: inside_def)
        have "seekRight ?s1 = Some (?s1\<lparr>child := of_nat (Suc j') - 1 / 2\<rparr>)"
          using seekRight_skip[of ?s1 c b j' m x] H i1 j' x(1) leaf by simp
        also have "?s1\<lparr>child := of_nat (Suc j') - 1 / 2\<rparr> = s"
          using in2 by (simp add: inside_def)
        finally show ?thesis using r i1 H T wf_inside[of ?s1 c b j' m] by simp
      next
        case False
        from last_block[OF H x(3,4) False] obtain bl where
          bl: "last (blocks (?H ! x)) = Ref bl" "Ref bl \<in> set (blocks (?H ! x))" by auto
        let ?n = "length (children (?H ! bl))"
        let ?s1 = "s\<lparr>component := Ref x, block := Ref bl, child := of_nat ?n - 1 / 2\<rparr>"
        have r: "seekLeft s = Some ?s1"
          using seekLeft_enter[OF H in2 x(1) False bl(1)] .
        have mem: "Ref x \<in> set (children (?H ! b))" using j' x(1) by (metis nth_mem)
        have att: "attached ?H ?cs m x"
          using attached.nested[OF cv(5) cv(1,2,4) _ _ mem] blk by simp
        have i1: "inside ?s1 x bl ?n m"
          using 2 x False bl att by (simp add: inside_def)
        have "seekRight ?s1 =
            Some (?s1\<lparr>block := Ref b, child := of_nat (Suc j') - 1 / 2,
                      component := parent (?H ! b)\<rparr>)"
          using seekRight_exit_nested[of ?s1 x bl ?n m b j'] H i1 bl x blk j'
            inside_children(1)[OF H 2] by simp
        also have "?s1\<lparr>block := Ref b, child := of_nat (Suc j') - 1 / 2,
                      component := parent (?H ! b)\<rparr> = s"
          using in2 blk by (simp add: inside_def)
        finally show ?thesis using r i1 H T wf_inside[of ?s1 x bl ?n m] by simp
      qed
    next
      case 0
      with 2 have in0: "inside s c b 0 m" by simp
      from inside_blocks(2)[OF H 2] obtain i where
        i: "i < length (blocks (?H ! c))" "blocks (?H ! c) ! i = Ref b" by auto
      show ?thesis
      proof (cases i)
        case (Suc i')
        with i have si: "Suc i' < length (blocks (?H ! c))" "blocks (?H ! c) ! Suc i' = Ref b"
          and i'l: "i' < length (blocks (?H ! c))" by simp_all
        from inside_blocks(3)[OF H 2 i'l] obtain b2 where
          b2: "blocks (?H ! c) ! i' = Ref b2" "b2 < length ?H" "is_Block (?H ! b2)" by auto
        let ?n = "length (children (?H ! b2))"
        let ?s1 = "s\<lparr>block := Ref b2, child := of_nat ?n - 1 / 2\<rparr>"
        have r: "seekLeft s = Some ?s1"
          using seekLeft_prev_block[OF H in0 si b2(1)] .
        have mem: "Ref b2 \<in> set (blocks (?H ! c))" using i'l b2(1) by (metis nth_mem)
        have i1: "inside ?s1 c b2 ?n m" using 2 mem by (simp add: inside_def)
        have "seekRight ?s1 = Some (?s1\<lparr>block := blocks (?H ! c) ! Suc i', child := - 1 / 2\<rparr>)"
          using seekRight_next_block[of ?s1 c b2 ?n m i'] H i1 i'l b2 si by simp
        also have "?s1\<lparr>block := blocks (?H ! c) ! Suc i', child := - 1 / 2\<rparr> = s"
          using in0 si by (simp add: inside_def)
        finally show ?thesis using r i1 H T wf_inside[of ?s1 c b2 ?n m] by simp
      next
        case 0
        with i have fst: "blocks (?H ! c) ! 0 = Ref b" by simp
        show ?thesis
        proof (cases "parent (?H ! c) = Null")
          case True
          let ?s1 = "s\<lparr>component := Null, block := Null, child := - 1 / 2,
                        position := of_nat m - 1 / 2\<rparr>"
          have r: "seekLeft s = Some ?s1" using seekLeft_exit_top[OF H in0 fst True] .
          have t1: "at_top ?s1 m" using cv(6) by (simp add: at_top_def)
          have top: "?cs ! m = Ref c" using attached_parent_Null[OF cv(5) H T True] .
          have "seekRight ?s1 =
              Some (?s1\<lparr>position := of_nat m, component := Ref c,
                        block := blocks (?H ! c) ! 0\<rparr>)"
            using seekRight_top_enter[of ?s1 m c] H T t1 top cv(3,6) by simp
          also have "?s1\<lparr>position := of_nat m, component := Ref c,
                        block := blocks (?H ! c) ! 0\<rparr> = s"
            using in0 fst by (simp add: inside_def)
          finally show ?thesis using r t1 H T wf_at_top[of ?s1 m] by simp
        next
          case False
          from attached_parent_Ref[OF cv(5) H T False] obtain c' pb where
            p: "parent (?H ! c) = Ref pb" "attached ?H ?cs m c'" "c' < length ?H"
              "\<not> is_Block (?H ! c')" "Ref pb \<in> set (blocks (?H ! c'))" "pb < length ?H"
              "is_Block (?H ! pb)" "Ref c \<in> set (children (?H ! pb))" "parent (?H ! pb) = Ref c'"
            by blast
          have nl: "\<not> leaf_cls (cls (?H ! c'))" using owner_not_leaf[OF H p(3,4,5,8)] .
          from p(8) obtain i' where
            i': "i' < length (children (?H ! pb))" "children (?H ! pb) ! i' = Ref c"
            by (auto simp: in_set_conv_nth)
          have dist: "distinct (children (?H ! pb))"
            using children_of_nonleaf(1)[OF H p(3,4,5) nonleaf_not_text[OF nl]] .
          let ?s1 = "s\<lparr>block := Ref pb, child := of_nat i' - 1 / 2, component := Ref c'\<rparr>"
          have r: "seekLeft s = Some ?s1"
            using seekLeft_exit_nested[OF H in0 fst p(1,6,7) i' dist] p(9) by simp
          have i1: "inside ?s1 c' pb i' m"
            using 2 p nl i' by (simp add: inside_def)
          have "seekRight ?s1 =
              Some (?s1\<lparr>component := Ref c, block := blocks (?H ! c) ! 0, child := - 1 / 2\<rparr>)"
            using seekRight_enter[of ?s1 c' pb i' m c] H i1 i' cv(3) by simp
          also have "?s1\<lparr>component := Ref c, block := blocks (?H ! c) ! 0, child := - 1 / 2\<rparr> = s"
            using in0 fst by (simp add: inside_def)
          finally show ?thesis using r i1 H T wf_inside[of ?s1 c' pb i' m] by simp
        qed
      qed
    qed
  qed
qed

subsection \<open>Inserting\<close>

lemma nth_splice_insert:
  "j \<le> length xs \<Longrightarrow> splice_insert (int j) v xs ! j = v"
  by (simp add: splice_insert_nat nth_append)

lemma wf_top_insert:
  assumes "wf_top H cs" "n < length H" "\<not> is_Block (H ! n)" "parent (H ! n) = Null"
    and "Ref n \<notin> set cs"
  shows "wf_top H (splice_insert i (Ref n) cs)"
  using assms unfolding wf_top_def by (auto simp: distinct_splice_insert)

lemma wf_top_remove:
  assumes "wf_top H cs"
  shows "wf_top H (splice_remove i cs)"
  using assms set_splice_remove[of i cs] unfolding wf_top_def
  by (auto simp: distinct_splice_remove)

lemma wf_top_fresh: "wf_top H cs \<Longrightarrow> Ref (length H) \<notin> set cs"
  by (auto simp: wf_top_def)

text \<open>The store after \<open>new TextComponent(p)\<close> and \<open>addChild(text)\<close> on its Block.\<close>

lemma new_text_eq:
  "new_text p text H =
     Some (Ref (length H),
           (snd (new_Component TextComponent p [] H))
             [Suc (length H) := Block [Str text] (Ref (length H))])"
proof -
  let ?n = "length H"
  let ?H1 = "snd (new_Component TextComponent p [] H)"
  have blk: "?H1 ! Suc ?n = Block [] (Ref ?n)"
    using new_heap_block[of H "Suc ?n" TextComponent p "[]"] by simp
  have bs: "blocks_of ?H1 (Ref ?n) = Some [Ref (Suc ?n)]"
    by (simp add: blocks_of_def deref_def)
  have ch: "children_of ?H1 (Ref (Suc ?n)) = Some []"
    using blk by (simp add: children_of_def deref_def)
  have add: "Block_addChild ?H1 (Ref (Suc ?n)) (Str text) 0 =
      Some (?H1[Suc ?n := Block [Str text] (Ref ?n)])"
    using blk by (simp add: Block_addChild_def deref_def splice_insert_def splice_start_def)
  show ?thesis
    using bs ch add by (simp add: new_text_def case_prod_beta nth_js_def)
qed

lemma wf_heap_text:
  assumes "wf_heap H"
  shows "wf_heap ((snd (new_Component TextComponent p [] H))
             [Suc (length H) := Block [Str text] (Ref (length H))])"
proof -
  let ?n = "length H"
  let ?H1 = "snd (new_Component TextComponent p [] H)"
  let ?H2 = "?H1[Suc ?n := Block [Str text] (Ref ?n)]"
  have w1: "wf_heap ?H1" using wf_heap_new_Component[OF assms, of TextComponent] by simp
  have blk: "?H1 ! Suc ?n = Block [] (Ref ?n)"
    using new_heap_block[of H "Suc ?n" TextComponent p "[]"] by simp
  have "wf_block ?H2 (Suc ?n)"
    unfolding wf_block_def by (rule exI[of _ ?n]) simp
  then show ?thesis
    using wf_heap_upd[OF w1, of "Suc ?n" "[Str text]"] blk by simp
qed

lemma text_heap_old:
  "r < length H \<Longrightarrow>
   (snd (new_Component TextComponent p [] H))
             [Suc (length H) := Block [Str text] (Ref (length H))] ! r = H ! r"
  by simp

lemma text_heap_new:
  "(snd (new_Component TextComponent p [] H))
             [Suc (length H) := Block [Str text] (Ref (length H))] ! length H
   = Component TextComponent [Ref (Suc (length H))] p None"
  by simp

text \<open>Inserting a fresh Component \<open>n\<close>, constructed with the cursor's Block as parent, into
  that Block at the cursor.\<close>

lemma insert_child:
  assumes H0: "wf_heap H0" and in0: "inside s c b j m" and hs: "heap s = H0"
    and H: "wf_heap H" "length H0 \<le> length H" "\<forall>x < length H0. H ! x = H0 ! x"
    and n: "length H0 \<le> n" "n < length H" "\<not> is_Block (H ! n)" "parent (H ! n) = Ref b"
  defines "H' \<equiv> H[b := Block (splice_insert (int j) (Ref n) (children (H ! b))) (parent (H ! b))]"
  shows "Block_addChild H (Ref b) (Ref n) (int j) = Some H'"
    and "wf_heap H'" and "wf_top H0 cs \<Longrightarrow> wf_top H' cs"
    and "attached H' (components s) m c" and "attached H' (components s) m n"
    and "H' ! c = H0 ! c" and "H' ! n = H ! n"
    and "children (H' ! b) = splice_insert (int j) (Ref n) (children (H0 ! b))"
    and "b < length H'" and "c < length H'" and "is_Block (H' ! b)"
    and "\<forall>x < length H. x \<noteq> b \<longrightarrow> H' ! x = H ! x"
proof -
  have in0': "inside s c b j m" "wf_heap (heap s)" using in0 hs H0 by simp_all
  note blk0 = inside_block[OF in0'(2,1)]
  have cv: "c < length H0" "\<not> is_Block (H0 ! c)" "\<not> leaf_cls (cls (H0 ! c))"
      "Ref b \<in> set (blocks (H0 ! c))" "attached H0 (components s) m c"
      "j \<le> length (children (H0 ! b))"
    using in0 hs by (auto simp: inside_def)
  have b: "b < length H0" "c < b" "is_Block (H0 ! b)" using blk0 hs by simp_all
  have eqc: "H ! c = H0 ! c" and eqb: "H ! b = H0 ! b" using H(3) cv(1) b(1) by auto
  have bH: "b < length H" "is_Block (H ! b)" using b H(2) eqb by simp_all
  show add: "Block_addChild H (Ref b) (Ref n) (int j) = Some H'"
    unfolding H'_def by (rule Block_addChild_eq[OF bH])
  let ?chs = "splice_insert (int j) (Ref n) (children (H ! b))"
  have old: "\<forall>ch \<in> set (children (H0 ! b)). \<exists>x. ch = Ref x \<and> b < x \<and> x < length H0
      \<and> \<not> is_Block (H0 ! x) \<and> parent (H0 ! x) = Ref b"
    using children_of_nonleaf(2)[OF H0 cv(1,2,4) nonleaf_not_text[OF cv(3)]] by blast
  have fresh: "Ref n \<notin> set (children (H0 ! b))" using old n(1) by auto
  have dist: "distinct ?chs"
    using children_of_nonleaf(1)[OF H0 cv(1,2,4) nonleaf_not_text[OF cv(3)]] fresh eqb
    by (simp add: distinct_splice_insert)
  have all: "\<forall>ch \<in> set ?chs. \<exists>x. ch = Ref x \<and> b < x \<and> x < length H \<and> \<not> is_Block (H ! x)
      \<and> parent (H ! x) = Ref b"
  proof
    fix ch assume "ch \<in> set ?chs"
    then consider "ch = Ref n" | "ch \<in> set (children (H0 ! b))" using eqb by auto
    then show "\<exists>x. ch = Ref x \<and> b < x \<and> x < length H \<and> \<not> is_Block (H ! x)
      \<and> parent (H ! x) = Ref b"
    proof cases
      case 1
      then show ?thesis using n b(1) by auto
    next
      case 2
      with old obtain x where "ch = Ref x" "b < x" "x < length H0" "\<not> is_Block (H0 ! x)"
        "parent (H0 ! x) = Ref b" by blast
      then show ?thesis using H(2,3) by auto
    qed
  qed
  have cH: "c < length H" "\<not> is_Block (H ! c)" "Ref b \<in> set (blocks (H ! c))"
      "cls (H ! c) \<noteq> TextComponent"
    using cv H(2) eqc nonleaf_not_text by auto
  have wb: "wf_block H' b"
    unfolding H'_def using wf_block_children[OF H(1) cH dist all] .
  show "wf_heap H'" unfolding H'_def using wf_heap_upd[OF H(1) bH] wb[unfolded H'_def] .
  show "wf_top H0 cs \<Longrightarrow> wf_top H' cs"
    unfolding H'_def using wf_top_upd[OF wf_top_ext[OF _ H(2)] bH] H(3) by simp
  have attH: "attached H (components s) m c" using attached_ext[OF cv(5) H(2)] H(3) by simp
  have len: "length H' = length H" by (simp add: H'_def)
  have below: "\<forall>x < c. H' ! x = H ! x" using b(2) by (simp add: H'_def)
  show attc: "attached H' (components s) m c" using attached_below[OF attH H(1) len below] .
  show eqc': "H' ! c = H0 ! c" using eqc b(2) by (simp add: H'_def)
  have nb: "n \<noteq> b" using n(1) b(1) by simp
  show eqn: "H' ! n = H ! n" using nb by (simp add: H'_def)
  show chs': "children (H' ! b) = splice_insert (int j) (Ref n) (children (H0 ! b))"
    using bH eqb by (simp add: H'_def)
  show "b < length H'" "c < length H'" using bH cH len by simp_all
  show isb: "is_Block (H' ! b)" using bH by (simp add: H'_def)
  show "\<forall>x < length H. x \<noteq> b \<longrightarrow> H' ! x = H ! x" by (simp add: H'_def)
  have "Ref n \<in> set (children (H' ! b))" unfolding chs' by simp
  moreover have "\<not> is_Block (H' ! c)" "Ref b \<in> set (blocks (H' ! c))"
    using eqc' cv by simp_all
  ultimately show "attached H' (components s) m n"
    using attached.nested[OF attc, of b n] cH(1) bH(1) isb len by simp
qed

lemma top_insert:
  assumes H0: "wf_heap H0" and T: "wf_top H0 cs" and m: "m \<le> length cs"
    and H: "length H0 \<le> length H" "\<forall>x < length H0. H ! x = H0 ! x"
    and n: "n = length H0" "n < length H" "\<not> is_Block (H ! n)" "parent (H ! n) = Null"
  shows "wf_top H (splice_insert (int m) (Ref n) cs)"
    and "splice_insert (int m) (Ref n) cs ! m = Ref n"
    and "m < length (splice_insert (int m) (Ref n) cs)"
proof -
  have "wf_top H cs" using wf_top_ext[OF T H] .
  moreover have "Ref n \<notin> set cs" using wf_top_fresh[OF T] n(1) by simp
  ultimately show "wf_top H (splice_insert (int m) (Ref n) cs)"
    using wf_top_insert n by simp
  show "splice_insert (int m) (Ref n) cs ! m = Ref n" using nth_splice_insert[OF m] .
  show "m < length (splice_insert (int m) (Ref n) cs)" using m by simp
qed

lemma addText_top:
  fixes tx :: string
  assumes "wf_heap (heap s)" "wf_top (heap s) (components s)" "at_top s m"
  defines "H' \<equiv> (snd (new_Component TextComponent Null [] (heap s)))
             [Suc (length (heap s)) := Block [Str tx] (Ref (length (heap s)))]"
  defines "s' \<equiv> s\<lparr>heap := H',
                   components := splice_insert (int m) (Ref (length (heap s))) (components s),
                   position := of_nat (Suc m) - 1 / 2\<rparr>"
  shows "addText s tx = Some s'" and "wf_heap (heap s')"
    and "wf_top (heap s') (components s')" and "at_top s' (Suc m)"
proof -
  show "addText s tx = Some s'"
    using assms(3) by (simp add: addText_def new_text_eq at_top_def Expression_add_def
        s'_def H'_def)
  show "wf_heap (heap s')" using wf_heap_text[OF assms(1)] by (simp add: s'_def H'_def)
  have m: "m \<le> length (components s)" using assms(3) by (simp add: at_top_def)
  show "wf_top (heap s') (components s')"
    using top_insert(1)[OF assms(1,2) m, of H' "length (heap s)"]
    by (simp add: s'_def H'_def)
  show "at_top s' (Suc m)" using assms(3) by (simp add: at_top_def s'_def)
qed

lemma addText_inside:
  fixes tx :: string
  assumes "wf_heap (heap s)" "wf_top (heap s) (components s)" "inside s c b j m"
  defines "H2 \<equiv> (snd (new_Component TextComponent (Ref b) [] (heap s)))
             [Suc (length (heap s)) := Block [Str tx] (Ref (length (heap s)))]"
  defines "H' \<equiv> H2[b := Block (splice_insert (int j) (Ref (length (heap s)))
                                  (children (H2 ! b))) (parent (H2 ! b))]"
  defines "s' \<equiv> s\<lparr>heap := H', child := of_nat (Suc j) - 1 / 2\<rparr>"
  shows "addText s tx = Some s'" and "wf_heap (heap s')"
    and "wf_top (heap s') (components s')" and "inside s' c b (Suc j) m"
proof -
  let ?n = "length (heap s)"
  have w2: "wf_heap H2" unfolding H2_def using wf_heap_text[OF assms(1)] .
  have old: "length (heap s) \<le> length H2" "\<forall>x < length (heap s). H2 ! x = heap s ! x"
    by (simp_all add: H2_def)
  have n: "?n \<le> ?n" "?n < length H2" "\<not> is_Block (H2 ! ?n)" "parent (H2 ! ?n) = Ref b"
    by (simp_all add: H2_def)
  note ic = insert_child[OF assms(1,3) refl w2 old n, folded H'_def]
  show "addText s tx = Some s'"
    using assms(3) ic(1) by (simp add: addText_def new_text_eq inside_def s'_def H2_def)
  show "wf_heap (heap s')" using ic(2) by (simp add: s'_def)
  show "wf_top (heap s') (components s')" using ic(3)[OF assms(2)] by (simp add: s'_def)
  show "inside s' c b (Suc j) m"
    using assms(3) ic(4,6,8,10) by (simp add: inside_def s'_def)
qed

lemma addText_step:
  assumes "wf s"
  shows "\<exists>s'. addText s tx = Some s' \<and> wf s'"
proof -
  from assms have H: "wf_heap (heap s)" and T: "wf_top (heap s) (components s)"
    by (simp_all add: wf_def)
  from assms consider m where "at_top s m" | c b j m where "inside s c b j m"
    by (auto simp: wf_def)
  then show ?thesis
  proof cases
    case 1
    from addText_top[OF H T 1, of tx] show ?thesis by (blast intro: wf_at_top)
  next
    case 2
    from addText_inside[OF H T 2, of tx] show ?thesis by (blast intro: wf_inside)
  qed
qed

subsection \<open>Inserting a Component\<close>

lemma addComponent_top_leaf:
  assumes "at_top s m" "n < length (heap s)" "\<not> is_Block (heap s ! n)"
    and "leaf_cls (cls (heap s ! n))"
  shows "addComponent s (Ref n) =
     Some (s\<lparr>components := splice_insert (int m) (Ref n) (components s),
             position := of_nat (Suc m) - 1 / 2\<rparr>)"
  using assms by (simp add: addComponent_def at_top_def Expression_add_def is_leaf_Component)

lemma addComponent_top_enter:
  assumes "at_top s m" "n < length (heap s)" "\<not> is_Block (heap s ! n)"
    and "\<not> leaf_cls (cls (heap s ! n))"
  shows "addComponent s (Ref n) =
     Some (s\<lparr>components := splice_insert (int m) (Ref n) (components s),
             position := of_nat m, block := nth_js (blocks (heap s ! n)) 0,
             component := Ref n\<rparr>)"
  using assms
  by (simp add: addComponent_def at_top_def Expression_add_def is_leaf_Component
      blocks_of_Component)

lemma addComponent_inside_leaf:
  assumes "block s = Ref b" "child s = of_nat j - 1 / 2"
    and "Block_addChild (heap s) (Ref b) (Ref n) (int j) = Some H'"
    and "n < length H'" "\<not> is_Block (H' ! n)" "leaf_cls (cls (H' ! n))"
  shows "addComponent s (Ref n) = Some (s\<lparr>heap := H', child := of_nat (Suc j) - 1 / 2\<rparr>)"
  using assms by (simp add: addComponent_def is_leaf_Component)

lemma addComponent_inside_enter:
  assumes "block s = Ref b" "child s = of_nat j - 1 / 2"
    and "Block_addChild (heap s) (Ref b) (Ref n) (int j) = Some H'"
    and "n < length H'" "\<not> is_Block (H' ! n)" "\<not> leaf_cls (cls (H' ! n))"
  shows "addComponent s (Ref n) =
     Some (s\<lparr>heap := H', component := Ref n, block := nth_js (blocks (H' ! n)) 0,
             child := - 1 / 2\<rparr>)"
  using assms by (simp add: addComponent_def is_leaf_Component blocks_of_Component)

lemma insert_new_eq:
  "insert_new s k col =
     addComponent (s\<lparr>heap := snd (new_Component k (block s) col (heap s))\<rparr>) (Ref (length (heap s)))"
  by (simp add: insert_new_def case_prod_beta)

lemma new_first_block:
  "0 < arity k \<Longrightarrow>
   nth_js (blocks (snd (new_Component k p col H) ! length H)) 0 = Ref (Suc (length H))"
  by (simp add: nth_js_def upt_conv_Cons)

lemma insert_new_step:
  assumes "wf s" "leaf_cls k \<or> 0 < arity k"
  shows "\<exists>s'. insert_new s k col = Some s' \<and> wf s'"
proof -
  let ?G = "heap s" and ?n = "length (heap s)"
  let ?H = "snd (new_Component k (block s) col (heap s))"
  let ?s0 = "s\<lparr>heap := ?H\<rparr>"
  from assms have H0: "wf_heap ?G" and T: "wf_top ?G (components s)"
    by (simp_all add: wf_def)
  have wH: "wf_heap ?H" using wf_heap_new_Component[OF H0 assms(2)] .
  have old: "length ?G \<le> length ?H" "\<forall>x < length ?G. ?H ! x = ?G ! x" by simp_all
  have n: "?n < length ?H" "\<not> is_Block (?H ! ?n)" "parent (?H ! ?n) = block s"
    "cls (?H ! ?n) = k" by simp_all
  from assms consider m where "at_top s m" | c b j m where "inside s c b j m"
    by (auto simp: wf_def)
  then show ?thesis
  proof cases
    case 1
    then have t0: "at_top ?s0 m" and m: "m \<le> length (components s)" and bn: "block s = Null"
      by (simp_all add: at_top_def)
    note ti = top_insert[OF H0 T m old refl n(1,2)]
    let ?cs = "splice_insert (int m) (Ref ?n) (components s)"
    show ?thesis
    proof (cases "leaf_cls k")
      case True
      let ?s' = "?s0\<lparr>components := ?cs, position := of_nat (Suc m) - 1 / 2\<rparr>"
      have "insert_new s k col = Some ?s'"
        using addComponent_top_leaf[OF t0, of ?n] True by (simp add: insert_new_eq)
      moreover have "at_top ?s' (Suc m)" using 1 by (simp add: at_top_def)
      moreover have "wf_top (heap ?s') (components ?s')" using ti(1) n(3) bn by simp
      ultimately show ?thesis using wH wf_at_top[of ?s' "Suc m"] by simp
    next
      case False
      with assms(2) have ar: "0 < arity k" by simp
      let ?s' = "?s0\<lparr>components := ?cs, position := of_nat m, block := Ref (Suc ?n),
                     component := Ref ?n\<rparr>"
      have "insert_new s k col = Some ?s'"
        using addComponent_top_enter[OF t0, of ?n] False new_first_block[OF ar, of "block s" col ?G]
        by (simp add: insert_new_eq)
      moreover have "inside ?s' ?n (Suc ?n) 0 m"
        using 1 False ar ti(2,3) new_heap_block[of ?G "Suc ?n" k "block s" col]
        by (simp add: inside_def at_top_def attached.top upt_conv_Cons)
      moreover have "wf_top (heap ?s') (components ?s')" using ti(1) n(3) bn by simp
      ultimately show ?thesis using wH wf_inside[of ?s' ?n "Suc ?n" 0 m] by simp
    qed
  next
    case 2
    then have bs: "block s = Ref b" and ch: "child s = of_nat j - 1 / 2"
      by (simp_all add: inside_def)
    have n': "?n \<le> ?n" "?n < length ?H" "\<not> is_Block (?H ! ?n)" "parent (?H ! ?n) = Ref b"
      using bs by simp_all
    let ?H' = "?H[b := Block (splice_insert (int j) (Ref ?n) (children (?H ! b))) (parent (?H ! b))]"
    note ic = insert_child[OF H0 2 refl wH old n']
    have nH': "?n < length ?H'" "\<not> is_Block (?H' ! ?n)" "cls (?H' ! ?n) = k"
      using ic(7) by simp_all
    show ?thesis
    proof (cases "leaf_cls k")
      case True
      let ?s' = "?s0\<lparr>heap := ?H', child := of_nat (Suc j) - 1 / 2\<rparr>"
      have "insert_new s k col = Some ?s'"
        using addComponent_inside_leaf[of ?s0 b j ?n ?H'] bs ch ic(1) nH' True
        by (simp add: insert_new_eq)
      moreover have "inside ?s' c b (Suc j) m"
        using 2 ic(4,6,8,10) by (simp add: inside_def)
      moreover have "wf_top (heap ?s') (components ?s')" using ic(3)[OF T] by simp
      ultimately show ?thesis using ic(2) wf_inside[of ?s' c b "Suc j" m] by simp
    next
      case False
      with assms(2) have ar: "0 < arity k" by simp
      let ?s' = "?s0\<lparr>heap := ?H', component := Ref ?n, block := Ref (Suc ?n), child := - 1 / 2\<rparr>"
      have fb: "nth_js (blocks (?H' ! ?n)) 0 = Ref (Suc ?n)"
        using new_first_block[OF ar, of "block s" col ?G] ic(7) by simp
      have "insert_new s k col = Some ?s'"
        using addComponent_inside_enter[of ?s0 b j ?n ?H'] bs ch ic(1) nH' False fb
        by (simp add: insert_new_eq)
      moreover have "inside ?s' ?n (Suc ?n) 0 m"
        using 2 False ar ic(5,7) by (simp add: inside_def upt_conv_Cons)
      moreover have "wf_top (heap ?s') (components ?s')" using ic(3)[OF T] by simp
      ultimately show ?thesis using ic(2) wf_inside[of ?s' ?n "Suc ?n" 0 m] by simp
    qed
  qed
qed

subsection \<open>Deleting\<close>

lemma length_splice_remove:
  "i < length xs \<Longrightarrow> length (splice_remove (int i) xs) = length xs - 1"
  by (simp add: splice_remove_nat)

lemma isEmpty_loop_blocks:
  assumes "\<forall>v \<in> set bs. \<exists>x. v = Ref x \<and> x < length H \<and> is_Block (H ! x)"
  shows "isEmpty_loop H bs = Some (\<forall>v \<in> set bs. \<exists>x. v = Ref x \<and> children (H ! x) = [])"
  using assms
proof (induction bs)
  case Nil
  show ?case by simp
next
  case (Cons v bs)
  then obtain x where x: "v = Ref x" "x < length H" "is_Block (H ! x)" by auto
  have "children_of H v = Some (children (H ! x))" using x by (simp add: children_of_Block)
  then show ?case using Cons x by auto
qed

lemma isEmpty_inside:
  assumes "wf_heap (heap s)" "inside s c b j m"
  shows "Component_isEmpty (heap s) (Ref c) =
     Some (\<forall>v \<in> set (blocks (heap s ! c)). \<exists>x. v = Ref x \<and> children (heap s ! x) = [])"
proof -
  have cv: "c < length (heap s)" "\<not> is_Block (heap s ! c)"
    using assms(2) by (simp_all add: inside_def)
  have "\<forall>v \<in> set (blocks (heap s ! c)). \<exists>x. v = Ref x \<and> x < length (heap s) \<and> is_Block (heap s ! x)"
    using wf_heap_component[OF assms(1) cv] by (auto simp: wf_component_def)
  from isEmpty_loop_blocks[OF this] show ?thesis
    using cv by (simp add: Component_isEmpty_def blocks_of_Component)
qed

text \<open>Removing child \<open>i\<close> from a Block of an attached Component.\<close>

lemma remove_child:
  fixes i :: int
  assumes H: "wf_heap H" and c: "c < length H" "\<not> is_Block (H ! c)" "\<not> leaf_cls (cls (H ! c))"
      "Ref b \<in> set (blocks (H ! c))" and att: "attached H cs m c"
  defines "H' \<equiv> H[b := Block (splice_remove i (children (H ! b))) (parent (H ! b))]"
  shows "Block_removeChild H (Ref b) i = Some H'"
    and "wf_heap H'" and "wf_top H cs \<Longrightarrow> wf_top H' cs"
    and "attached H' cs m c" and "H' ! c = H ! c"
    and "children (H' ! b) = splice_remove i (children (H ! b))"
    and "length H' = length H"
proof -
  note b = block_of_component[OF H c(1,2,4)]
  have bH: "b < length H" "is_Block (H ! b)" using b by simp_all
  show "Block_removeChild H (Ref b) i = Some H'"
    unfolding H'_def by (rule Block_removeChild_eq[OF bH])
  let ?chs = "splice_remove i (children (H ! b))"
  have nt: "cls (H ! c) \<noteq> TextComponent" using nonleaf_not_text[OF c(3)] .
  have dist: "distinct ?chs"
    using children_of_nonleaf(1)[OF H c(1,2,4) nt] by (rule distinct_splice_remove)
  have all: "\<forall>ch \<in> set ?chs. \<exists>x. ch = Ref x \<and> b < x \<and> x < length H \<and> \<not> is_Block (H ! x)
      \<and> parent (H ! x) = Ref b"
    using children_of_nonleaf(2)[OF H c(1,2,4) nt] set_splice_remove[of i "children (H ! b)"]
    by blast
  have wb: "wf_block H' b" unfolding H'_def using wf_block_children[OF H c(1,2,4) nt dist all] .
  show "wf_heap H'" unfolding H'_def using wf_heap_upd[OF H bH] wb[unfolded H'_def] .
  show "wf_top H cs \<Longrightarrow> wf_top H' cs" unfolding H'_def using wf_top_upd[OF _ bH] .
  show len: "length H' = length H" by (simp add: H'_def)
  have below: "\<forall>x < c. H' ! x = H ! x" using b by (simp add: H'_def)
  show "attached H' cs m c" using attached_below[OF att H len below] .
  show "H' ! c = H ! c" using b by (simp add: H'_def)
  show "children (H' ! b) = splice_remove i (children (H ! b))" using bH by (simp add: H'_def)
qed

subsection \<open>The branches of backspace\<close>

lemma nat_neq_minus_half [simp]: "(of_nat m :: rat) \<noteq> - (1 / 2)"
proof -
  have "(0 :: rat) \<le> of_nat m" by simp
  then show ?thesis by linarith
qed

lemma half_Suc_neq_minus_half [simp]: "1 / 2 + (of_nat m :: rat) \<noteq> - (1 / 2)"
proof -
  have "(0 :: rat) \<le> of_nat m" by simp
  then show ?thesis by linarith
qed

lemma inside_fields:
  assumes "inside s c b j m"
  shows "block s = Ref b" "component s = Ref c" "child s = of_nat j - 1 / 2"
    "position s = of_nat m" "components s \<noteq> []"
  using assms by (auto simp: inside_def)

lemma at_top_Suc_fields:
  assumes "at_top s (Suc m)"
  shows "block s = Null" "component s = Null" "child s = - (1 / 2)"
    "position s = of_nat (Suc m) - 1 / 2" "components s \<noteq> []" "m < length (components s)"
  using assms by (auto simp: at_top_def)

lemma backspace_top_start:
  assumes "at_top s 0"
  shows "backspace s = Some s"
  using assms by (simp add: backspace_def at_top_def)

lemma removeComponent_inside_top:
  assumes "component s = Ref c" "c < length (heap s)" "parent (heap s ! c) = Null"
    and "first_index (components s) (Ref c) = Some m"
  shows "removeComponent_inside s =
     Some (s\<lparr>components := splice_remove (int m) (components s),
             position := position s - 1 / 2,
             component := Null, block := Null, child := - 1 / 2\<rparr>)"
  using assms by (simp add: removeComponent_inside_def parent_of_Ref Expression_remove_def)

lemma removeComponent_inside_nested:
  assumes "component s = Ref c" "c < length (heap s)" "parent (heap s ! c) = Ref pb"
    and "pb < length (heap s)" "is_Block (heap s ! pb)"
    and "first_index (children (heap s ! pb)) (Ref c) = Some i"
  shows "removeComponent_inside s =
     Some (s\<lparr>heap := (heap s)[pb := Block (splice_remove (int i) (children (heap s ! pb)))
                                     (parent (heap s ! pb))],
             child := of_nat i - 1 / 2, block := Ref pb, component := parent (heap s ! pb)\<rparr>)"
  using assms
  by (simp add: removeComponent_inside_def parent_of_Ref children_of_Block
      Block_removeChild_eq)

lemma backspace_top_leaf:
  assumes "wf_heap (heap s)" "wf_top (heap s) (components s)" "at_top s (Suc m)"
    and "components s ! m = Ref x" "leaf_cls (cls (heap s ! x))"
  shows "backspace s =
     Some (s\<lparr>components := splice_remove (int m) (components s),
             position := of_nat m - 1 / 2\<rparr>)"
proof -
  have m: "m < length (components s)" using assms(3) by (simp add: at_top_def)
  note x = wf_top_nth[OF assms(2) m assms(4)]
  have lf: "is_leaf (heap s) (Ref x)" using x assms(5) by (simp add: is_leaf_Component)
  have bs: "blocks_of (heap s) (Ref x) = Some (blocks (heap s ! x))"
    using x by (simp add: blocks_of_Component)
  have nn: "nth_js (blocks (heap s ! x)) 0 \<noteq> Null"
  proof (cases "blocks (heap s ! x) = []")
    case True
    then show ?thesis by (simp add: nth_js_def)
  next
    case False
    then have mem: "blocks (heap s ! x) ! 0 \<in> set (blocks (heap s ! x))" by simp
    from blocks_are_refs[OF assms(1) _ _ mem] x obtain b0 where
      "blocks (heap s ! x) ! 0 = Ref b0" by auto
    with False show ?thesis by (simp add: nth_js_zero)
  qed
  have dist: "distinct (components s)" using assms(2) by (simp add: wf_top_def)
  have fi: "first_index (components s) (Ref x) = Some m"
    using first_index_distinct[OF dist m] assms(4) by simp
  let ?s1 = "s\<lparr>position := of_int \<lfloor>position s\<rfloor>, component := Ref x,
                 block := nth_js (blocks (heap s ! x)) 0, child := - 1 / 2\<rparr>"
  have ri: "removeComponent_inside ?s1 =
      Some (?s1\<lparr>components := splice_remove (int m) (components ?s1),
             position := position ?s1 - 1 / 2,
             component := Null, block := Null, child := - 1 / 2\<rparr>)"
    using removeComponent_inside_top[of ?s1 x m] x fi by simp
  note f = at_top_Suc_fields[OF assms(3)]
  have pv: "nth_js (components s) \<lfloor>position s\<rfloor> = Ref x"
    using f(4,6) assms(4) by simp
  have "removeComponent s = removeComponent_inside ?s1"
    using f(1) pv lf bs nn by (simp add: removeComponent_def Let_def)
  then show ?thesis
    using f pv lf ri by (simp add: backspace_def Let_def)
qed

lemma backspace_top_enter:
  assumes "wf_heap (heap s)" "wf_top (heap s) (components s)" "at_top s (Suc m)"
    and "components s ! m = Ref x" "\<not> leaf_cls (cls (heap s ! x))"
    and "last (blocks (heap s ! x)) = Ref b"
  shows "backspace s =
     Some (s\<lparr>component := Ref x, block := Ref b,
             child := of_nat (length (children (heap s ! b))) - 1 / 2,
             position := of_nat m\<rparr>)"
proof -
  have m: "m < length (components s)" using assms(3) by (simp add: at_top_def)
  note x = wf_top_nth[OF assms(2) m assms(4)]
  have nl: "\<not> is_leaf (heap s) (Ref x)" using x assms(5) by (simp add: is_leaf_Component)
  have bs: "blocks_of (heap s) (Ref x) = Some (blocks (heap s ! x))"
    using x by (simp add: blocks_of_Component)
  from last_block[OF assms(1) _ _ assms(5)] x assms(6)
  have lb: "nth_js (blocks (heap s ! x)) (int (length (blocks (heap s ! x))) - 1) = Ref b"
    and mem: "Ref b \<in> set (blocks (heap s ! x))" by auto
  from block_of_component[OF assms(1) _ _ mem] x
  have ch: "children_of (heap s) (Ref b) = Some (children (heap s ! b))"
    by (simp add: children_of_Block)
  note f = at_top_Suc_fields[OF assms(3)]
  have pv: "nth_js (components s) \<lfloor>position s\<rfloor> = Ref x"
    using f(4,6) assms(4) by simp
  have fl: "(of_int \<lfloor>position s\<rfloor> :: rat) = of_nat m" using f(4) by simp
  show ?thesis
    using f(1,2,3,5) pv fl nl bs lb ch
    by (simp add: backspace_def Let_def del: of_nat_Suc) (simp add: f(4))
qed

lemma backspace_empty:
  assumes "wf_heap (heap s)" "inside s c b j m"
    and "\<forall>v \<in> set (blocks (heap s ! c)). \<exists>x. v = Ref x \<and> children (heap s ! x) = []"
  shows "backspace s = removeComponent_inside s"
proof -
  have e: "Component_isEmpty (heap s) (Ref c) = Some True"
    using isEmpty_inside[OF assms(1,2)] assms(3) by simp
  show ?thesis
    using inside_fields[OF assms(2)] e by (simp add: backspace_def removeComponent_def)
qed

lemma backspace_first_block:
  assumes "wf_heap (heap s)" "inside s c b 0 m"
    and "\<not> (\<forall>v \<in> set (blocks (heap s ! c)). \<exists>x. v = Ref x \<and> children (heap s ! x) = [])"
    and "blocks (heap s ! c) ! 0 = Ref b"
  shows "backspace s = Some s"
proof -
  have ne: "0 < length (blocks (heap s ! c))" using assms(2) by (auto simp: inside_def)
  have idx: "indexOf (blocks (heap s ! c)) (Ref b) = 0"
    using indexOf_distinct[OF inside_blocks(1)[OF assms(1,2)] ne] assms(4) by simp
  have e: "Component_isEmpty (heap s) (Ref c) = Some False"
    using isEmpty_inside[OF assms(1,2)] assms(3) by simp
  show ?thesis
    using inside_fields[OF assms(2)] idx e inside_reads[OF assms(1,2)]
    by (simp add: backspace_def)
qed

lemma backspace_prev_block:
  assumes "wf_heap (heap s)" "inside s c b 0 m"
    and "\<not> (\<forall>v \<in> set (blocks (heap s ! c)). \<exists>x. v = Ref x \<and> children (heap s ! x) = [])"
    and "Suc i < length (blocks (heap s ! c))" "blocks (heap s ! c) ! Suc i = Ref b"
    and "blocks (heap s ! c) ! i = Ref b'"
  shows "backspace s =
     Some (s\<lparr>block := Ref b', child := of_nat (length (children (heap s ! b'))) - 1 / 2\<rparr>)"
proof -
  have idx: "indexOf (blocks (heap s ! c)) (Ref b) = int (Suc i)"
    using indexOf_distinct[OF inside_blocks(1)[OF assms(1,2)] assms(4)] assms(5) by simp
  have i: "i < length (blocks (heap s ! c))" using assms(4) by simp
  have nx: "nth_js (blocks (heap s ! c)) (int i) = Ref b'"
    using nth_js_nat[OF i] assms(6) by simp
  from inside_blocks(3)[OF assms(1,2) i] assms(6)
  have ch: "children_of (heap s) (Ref b') = Some (children (heap s ! b'))"
    by (auto simp: children_of_Block)
  have e: "Component_isEmpty (heap s) (Ref c) = Some False"
    using isEmpty_inside[OF assms(1,2)] assms(3) by simp
  show ?thesis
    using inside_fields[OF assms(2)] idx nx ch e inside_reads[OF assms(1,2)]
    by (simp add: backspace_def)
qed

lemma backspace_child:
  assumes "wf_heap (heap s)" "inside s c b (Suc j) m"
    and "\<not> (\<forall>v \<in> set (blocks (heap s ! c)). \<exists>x. v = Ref x \<and> children (heap s ! x) = [])"
  shows "backspace s =
     Some (s\<lparr>heap := (heap s)[b := Block (splice_remove (int j) (children (heap s ! b)))
                                    (parent (heap s ! b))],
             child := of_nat j - 1 / 2\<rparr>)"
proof -
  note blk = inside_block[OF assms(1,2)]
  have rm: "Block_removeChild (heap s) (Ref b) (int j) =
      Some ((heap s)[b := Block (splice_remove (int j) (children (heap s ! b)))
                                    (parent (heap s ! b))])"
    using Block_removeChild_eq blk by simp
  have e: "Component_isEmpty (heap s) (Ref c) = Some False"
    using isEmpty_inside[OF assms(1,2)] assms(3) by simp
  note f = inside_fields[OF assms(2)]
  have fl: "\<lfloor>child s\<rfloor> = int j" using f(3) by simp
  have ng: "\<not> child s \<le> - (1 / 2)" using f(3) by simp
  have c1: "child s - 1 = of_nat j - 1 / 2" using f(3) by simp
  show ?thesis
    using f(1,2,4,5) fl ng c1 rm e by (simp add: backspace_def)
qed

lemma backspace_step:
  assumes "wf s"
  shows "\<exists>s'. backspace s = Some s' \<and> wf s'"
proof -
  let ?H = "heap s" and ?cs = "components s"
  from assms have H: "wf_heap ?H" and T: "wf_top ?H ?cs" by (simp_all add: wf_def)
  from assms consider m where "at_top s m" | c b j m where "inside s c b j m"
    by (auto simp: wf_def)
  then show ?thesis
  proof cases
    case 1
    show ?thesis
    proof (cases m)
      case 0
      with 1 assms show ?thesis using backspace_top_start by simp
    next
      case (Suc m')
      with 1 have m: "m' < length ?cs" and t: "at_top s (Suc m')" by (simp_all add: at_top_def)
      from wf_top_refs[OF T m] obtain x where x: "?cs ! m' = Ref x" ..
      note xv = wf_top_nth[OF T m x]
      show ?thesis
      proof (cases "leaf_cls (cls (?H ! x))")
        case True
        let ?s1 = "s\<lparr>components := splice_remove (int m') ?cs, position := of_nat m' - 1 / 2\<rparr>"
        have r: "backspace s = Some ?s1" using backspace_top_leaf[OF H T t x True] .
        have t1: "at_top ?s1 m'" using t m by (simp add: at_top_def length_splice_remove)
        have "wf_top (heap ?s1) (components ?s1)" using wf_top_remove[OF T] by simp
        with r t1 H show ?thesis using wf_at_top[of ?s1 m'] by simp
      next
        case False
        from last_block[OF H _ _ False] xv obtain bl where
          bl: "last (blocks (?H ! x)) = Ref bl" "Ref bl \<in> set (blocks (?H ! x))" by auto
        let ?n = "length (children (?H ! bl))"
        let ?s1 = "s\<lparr>component := Ref x, block := Ref bl,
                      child := of_nat ?n - 1 / 2, position := of_nat m'\<rparr>"
        have r: "backspace s = Some ?s1"
          using backspace_top_enter[OF H T t x False bl(1)] .
        have i1: "inside ?s1 x bl ?n m'"
          using t m x xv False bl by (simp add: inside_def at_top_def attached.top)
        show ?thesis using r i1 H T wf_inside[of ?s1 x bl ?n m'] by simp
      qed
    qed
  next
    case 2
    note blk = inside_block[OF H 2]
    have cv: "c < length ?H" "\<not> is_Block (?H ! c)" "\<not> leaf_cls (cls (?H ! c))"
      "Ref b \<in> set (blocks (?H ! c))" "attached ?H ?cs m c" "m < length ?cs"
      "component s = Ref c"
      using 2 by (simp_all add: inside_def)
    show ?thesis
    proof (cases "\<forall>v \<in> set (blocks (?H ! c)). \<exists>x. v = Ref x \<and> children (?H ! x) = []")
      case True
      have bi: "backspace s = removeComponent_inside s" using backspace_empty[OF H 2 True] .
      show ?thesis
      proof (cases "parent (?H ! c) = Null")
        case pn: True
        have top: "?cs ! m = Ref c" using attached_parent_Null[OF cv(5) H T pn] .
        have dist: "distinct ?cs" using T by (simp add: wf_top_def)
        have fi: "first_index ?cs (Ref c) = Some m"
          using first_index_distinct[OF dist cv(6)] top by simp
        let ?s1 = "s\<lparr>components := splice_remove (int m) ?cs,
             position := position s - 1 / 2,
             component := Null, block := Null, child := - 1 / 2\<rparr>"
        have r: "backspace s = Some ?s1"
          using removeComponent_inside_top[OF cv(7,1) pn fi] bi by simp
        have t1: "at_top ?s1 m"
          using 2 cv(6) by (simp add: at_top_def inside_def length_splice_remove)
        have "wf_top (heap ?s1) (components ?s1)" using wf_top_remove[OF T] by simp
        with r t1 H show ?thesis using wf_at_top[of ?s1 m] by simp
      next
        case False
        from attached_parent_Ref[OF cv(5) H T False] obtain c' pb where
          p: "parent (?H ! c) = Ref pb" "attached ?H ?cs m c'" "c' < length ?H"
            "\<not> is_Block (?H ! c')" "Ref pb \<in> set (blocks (?H ! c'))" "pb < length ?H"
            "is_Block (?H ! pb)" "Ref c \<in> set (children (?H ! pb))" "parent (?H ! pb) = Ref c'"
          by blast
        have nl: "\<not> leaf_cls (cls (?H ! c'))" using owner_not_leaf[OF H p(3,4,5,8)] .
        from in_set_first_index[OF p(8)] obtain i where
          i: "first_index (children (?H ! pb)) (Ref c) = Some i"
            "i < length (children (?H ! pb))" by auto
        let ?H' = "?H[pb := Block (splice_remove (int i) (children (?H ! pb))) (parent (?H ! pb))]"
        let ?s1 = "s\<lparr>heap := ?H', child := of_nat i - 1 / 2, block := Ref pb,
                      component := Ref c'\<rparr>"
        have r: "backspace s = Some ?s1"
          using removeComponent_inside_nested[OF cv(7,1) p(1,6,7) i(1)] bi p(9) by simp
        note rc = remove_child[OF H p(3,4) nl p(5,2), of "int i"]
        have i1: "inside ?s1 c' pb i m"
          using 2 p nl i(2) rc(4,5,6)
          by (simp add: inside_def length_splice_remove)
        show ?thesis
          using r i1 rc(2) rc(3)[OF T] wf_inside[of ?s1 c' pb i m] by simp
      qed
    next
      case False
      show ?thesis
      proof (cases j)
        case (Suc j')
        with 2 have in2: "inside s c b (Suc j') m" and j': "j' < length (children (?H ! b))"
          by (simp_all add: inside_def)
        let ?H' = "?H[b := Block (splice_remove (int j') (children (?H ! b))) (parent (?H ! b))]"
        let ?s1 = "s\<lparr>heap := ?H', child := of_nat j' - 1 / 2\<rparr>"
        have r: "backspace s = Some ?s1" using backspace_child[OF H in2 False] .
        note rc = remove_child[OF H cv(1,2,3,4,5), of "int j'"]
        have i1: "inside ?s1 c b j' m"
          using in2 j' rc(4,5,6) by (simp add: inside_def length_splice_remove)
        show ?thesis
          using r i1 rc(2) rc(3)[OF T] wf_inside[of ?s1 c b j' m] by simp
      next
        case 0
        with 2 have in0: "inside s c b 0 m" by simp
        from inside_blocks(2)[OF H 2] obtain i where
          i: "i < length (blocks (?H ! c))" "blocks (?H ! c) ! i = Ref b" by auto
        show ?thesis
        proof (cases i)
          case 0
          with i have "blocks (?H ! c) ! 0 = Ref b" by simp
          from backspace_first_block[OF H in0 False this] assms show ?thesis by simp
        next
          case (Suc i')
          with i have si: "Suc i' < length (blocks (?H ! c))" "blocks (?H ! c) ! Suc i' = Ref b"
            and i'l: "i' < length (blocks (?H ! c))" by simp_all
          from inside_blocks(3)[OF H 2 i'l] obtain b2 where
            b2: "blocks (?H ! c) ! i' = Ref b2" "b2 < length ?H" "is_Block (?H ! b2)" by auto
          let ?n = "length (children (?H ! b2))"
          let ?s1 = "s\<lparr>block := Ref b2, child := of_nat ?n - 1 / 2\<rparr>"
          have r: "backspace s = Some ?s1"
            using backspace_prev_block[OF H in0 False si b2(1)] .
          have mem: "Ref b2 \<in> set (blocks (?H ! c))" using i'l b2(1) by (metis nth_mem)
          have i1: "inside ?s1 c b2 ?n m" using 2 mem by (simp add: inside_def)
          show ?thesis using r i1 H T wf_inside[of ?s1 c b2 ?n m] by simp
        qed
      qed
    qed
  qed
qed

lemma half_integer_iff: "half_integer q \<longleftrightarrow> (\<exists>N :: int. q = of_int N - 1 / 2)"
proof
  assume "half_integer q"
  then have "of_int \<lfloor>q + 1 / 2\<rfloor> = q + 1 / 2" unfolding half_integer_def .
  then have "q = of_int \<lfloor>q + 1 / 2\<rfloor> - 1 / 2" by linarith
  then show "\<exists>N :: int. q = of_int N - 1 / 2" ..
next
  assume "\<exists>N :: int. q = of_int N - 1 / 2"
  then obtain N :: int where "q = of_int N - 1 / 2" ..
  then show "half_integer q" by (simp add: half_integer_def)
qed

lemma half_integer_nat [simp]: "half_integer (of_nat j - 1 / 2)"
  by (simp add: half_integer_def)

lemma not_half_integer_nat [simp]: "\<not> half_integer (of_nat m)"
proof
  assume "half_integer (of_nat m)"
  then have "(of_int \<lfloor>(of_nat m :: rat) + 1 / 2\<rfloor> :: rat) = of_nat m + 1 / 2"
    by (simp add: half_integer_def)
  moreover have "\<lfloor>(of_nat m :: rat) + 1 / 2\<rfloor> = int m" by linarith
  ultimately show False by simp
qed

subsection \<open>Every reachable state is a resting state\<close>

lemma constructible_arity: "constructible k \<Longrightarrow> leaf_cls k \<or> 0 < arity k"
  by (cases k) simp_all

lemma wf_Cursor_new: "wf Cursor_new"
  by (simp add: wf_def wf_heap_def wf_top_def at_top_def Cursor_new_def)

lemma step_wf:
  assumes "wf s" "valid_op x"
  shows "\<exists>s'. step s x = Some s' \<and> wf s'"
proof (cases x)
  case (AddText t)
  then show ?thesis using addText_step[OF assms(1)] by simp
next
  case (Insert k col)
  then show ?thesis
    using insert_new_step[OF assms(1) constructible_arity] assms(2) by simp
next
  case Backspace
  then show ?thesis using backspace_step[OF assms(1)] by simp
next
  case SeekLeft
  then show ?thesis using seekLeft_step[OF assms(1)] by auto
next
  case SeekRight
  then show ?thesis using seekRight_step[OF assms(1)] by auto
qed

lemma run_wf:
  assumes "wf s" "list_all valid_op xs"
  shows "\<exists>s'. run s xs = Some s' \<and> wf s'"
  using assms
proof (induction xs arbitrary: s)
  case Nil
  then show ?case by simp
next
  case (Cons x xs)
  from step_wf[OF Cons.prems(1), of x] Cons.prems(2)
  obtain s1 where s1: "step s x = Some s1" "wf s1" by auto
  from Cons.IH[OF s1(2)] Cons.prems(2) s1(1) show ?case by simp
qed

lemma reachable_wf:
  assumes "list_all valid_op xs" "run Cursor_new xs = Some s"
  shows "wf s"
  using run_wf[OF wf_Cursor_new assms(1)] assms(2) by simp

lemma run_append:
  "run s (xs @ ys) = (case run s xs of None \<Rightarrow> None | Some s' \<Rightarrow> run s' ys)"
  by (induction xs arbitrary: s) (simp_all split: option.splits)

lemma seekRight_boundary:
  "\<not> position s < of_nat (length (components s)) - 1 / 2 \<Longrightarrow> seekRight s = Some s"
  by (simp add: seekRight_def Let_def not_less)

lemma seekLeft_boundary: "\<not> - 1 / 2 < position s \<Longrightarrow> seekLeft s = Some s"
  by (simp add: seekLeft_def not_less)

lemma wf_null_iff: "wf s \<Longrightarrow> (block s = Null) = (component s = Null)"
  by (auto simp: wf_def at_top_def inside_def)

lemma wf_addresses:
  assumes "wf s"
  shows "half_integer (child s)"
    and "if block s = Null then half_integer (position s)
         else \<not> half_integer (position s)
              \<and> (\<exists>m < length (components s). position s = of_nat m)"
proof -
  from assms consider m where "at_top s m" | c b j m where "inside s c b j m"
    by (auto simp: wf_def)
  then have "half_integer (child s) \<and>
      (if block s = Null then half_integer (position s)
         else \<not> half_integer (position s)
              \<and> (\<exists>m < length (components s). position s = of_nat m))"
  proof cases
    case 1
    have "child s = of_nat 0 - 1 / 2" using 1 by (simp add: at_top_def)
    then have "half_integer (child s)" by (simp only: half_integer_nat)
    then show ?thesis using 1 by (simp add: at_top_def)
  next
    case 2
    then show ?thesis by (auto simp: inside_def)
  qed
  then show "half_integer (child s)"
    and "if block s = Null then half_integer (position s)
         else \<not> half_integer (position s)
              \<and> (\<exists>m < length (components s). position s = of_nat m)"
    by simp_all
qed

lemma leaves_only_addText:
  assumes "leaves_only s"
  shows "\<exists>s'. addText s tx = Some s' \<and> leaves_only s'
           \<and> length (components s') = Suc (length (components s))"
proof -
  let ?m = "length (components s)" and ?n = "length (heap s)"
  from assms have H: "wf_heap (heap s)" and T: "wf_top (heap s) (components s)"
    and t: "at_top s ?m"
    and lf: "\<forall>i < ?m. \<exists>x. components s ! i = Ref x \<and> leaf_cls (cls (heap s ! x))"
    by (simp_all add: leaves_only_def)
  let ?H' = "(snd (new_Component TextComponent Null [] (heap s)))
             [Suc ?n := Block [Str tx] (Ref ?n)]"
  let ?s' = "s\<lparr>heap := ?H',
                 components := splice_insert (int ?m) (Ref ?n) (components s),
                 position := of_nat (Suc ?m) - 1 / 2\<rparr>"
  note a = addText_top[OF H T t, of tx]
  have cs: "components ?s' = components s @ [Ref ?n]" by (simp add: splice_insert_nat)
  have "\<exists>x. components ?s' ! i = Ref x \<and> leaf_cls (cls (heap ?s' ! x))"
    if "i < length (components ?s')" for i
  proof (cases "i < ?m")
    case True
    with lf obtain x where x: "components s ! i = Ref x" "leaf_cls (cls (heap s ! x))" by blast
    from wf_top_nth[OF T True x(1)] have "x < ?n" by simp
    with x True show ?thesis by (simp add: splice_insert_nat nth_append)
  next
    case False
    with that have "i = ?m" by simp
    then show ?thesis by (simp add: splice_insert_nat nth_append)
  qed
  then have "leaves_only ?s'"
    using a(2,3,4) unfolding leaves_only_def by simp
  with a(1) show ?thesis by auto
qed

lemma leaves_only_backspace:
  assumes "leaves_only s" "components s \<noteq> []"
  shows "\<exists>s'. backspace s = Some s' \<and> leaves_only s'
           \<and> length (components s') = length (components s) - 1"
proof -
  from assms(2) obtain m where m: "length (components s) = Suc m" by (cases "components s") auto
  from assms(1) m have H: "wf_heap (heap s)" and T: "wf_top (heap s) (components s)"
    and t: "at_top s (Suc m)"
    and lf: "\<forall>i < Suc m. \<exists>x. components s ! i = Ref x \<and> leaf_cls (cls (heap s ! x))"
    by (simp_all add: leaves_only_def)
  from lf obtain x where x: "components s ! m = Ref x" "leaf_cls (cls (heap s ! x))" by blast
  let ?s' = "s\<lparr>components := splice_remove (int m) (components s),
                 position := of_nat m - 1 / 2\<rparr>"
  have r: "backspace s = Some ?s'" using backspace_top_leaf[OF H T t x] .
  have cs: "components ?s' = take m (components s)" using m by (simp add: splice_remove_nat)
  have "leaves_only ?s'"
    unfolding leaves_only_def
  proof (intro conjI allI impI)
    show "wf_top (heap ?s') (components ?s')" using wf_top_remove[OF T] by simp
    show "at_top ?s' (length (components ?s'))"
      using t m by (simp add: at_top_def splice_remove_nat)
    fix i assume "i < length (components ?s')"
    then have "i < m" using m by (simp add: splice_remove_nat)
    with lf show "\<exists>x. components ?s' ! i = Ref x \<and> leaf_cls (cls (heap ?s' ! x))"
      using m by (simp add: splice_remove_nat)
  qed (use H in simp)
  with r m show ?thesis by (auto simp: splice_remove_nat)
qed

lemma leaves_only_run_addText:
  assumes "leaves_only s"
  shows "\<exists>s'. run s (map AddText texts) = Some s' \<and> leaves_only s'
           \<and> length (components s') = length (components s) + length texts"
  using assms
proof (induction texts arbitrary: s)
  case Nil
  then show ?case by simp
next
  case (Cons t texts)
  from leaves_only_addText[OF Cons.prems, of t] obtain s1 where
    s1: "addText s t = Some s1" "leaves_only s1"
      "length (components s1) = Suc (length (components s))" by blast
  from Cons.IH[OF s1(2)] s1(1,3) show ?case by auto
qed

lemma leaves_only_run_backspace:
  assumes "leaves_only s" "n \<le> length (components s)"
  shows "\<exists>s'. run s (replicate n Backspace) = Some s' \<and> leaves_only s'
           \<and> length (components s') = length (components s) - n"
  using assms
proof (induction n arbitrary: s)
  case 0
  then show ?case by simp
next
  case (Suc n)
  then have ne: "components s \<noteq> []" by auto
  from leaves_only_backspace[OF Suc.prems(1) ne] obtain s1 where
    s1: "backspace s = Some s1" "leaves_only s1"
      "length (components s1) = length (components s) - 1" by blast
  have "n \<le> length (components s1)" using s1(3) Suc.prems(2) by simp
  from Suc.IH[OF s1(2) this] s1(1,3) show ?case by auto
qed

lemma leaves_only_new: "leaves_only Cursor_new"
  by (simp add: leaves_only_def wf_heap_def wf_top_def at_top_def Cursor_new_def)

theorem addText_backspace_round_trip:
  "\<exists>s'. run Cursor_new (map AddText texts @ replicate (length texts) Backspace) = Some s'
     \<and> components s' = [] \<and> block s' = Null \<and> component s' = Null
     \<and> position s' = - 1 / 2 \<and> child s' = - 1 / 2"
proof -
  from leaves_only_run_addText[OF leaves_only_new, of texts] obtain s1 where
    s1: "run Cursor_new (map AddText texts) = Some s1" "leaves_only s1"
      "length (components s1) = length texts"
    by (auto simp: Cursor_new_def)
  from leaves_only_run_backspace[OF s1(2), of "length texts"] s1(3) obtain s2 where
    s2: "run s1 (replicate (length texts) Backspace) = Some s2" "leaves_only s2"
      "length (components s2) = 0" by auto
  have "run Cursor_new (map AddText texts @ replicate (length texts) Backspace) = Some s2"
    using s1(1) s2(1) by (simp add: run_append)
  moreover have "components s2 = []" using s2(3) by simp
  moreover have "at_top s2 0" using s2(2,3) by (simp add: leaves_only_def)
  ultimately show ?thesis by (auto simp: at_top_def)
qed

theorem addText_backspace_round_trip_witness:
  "\<exists>s'. run Cursor_new [AddText ''a'', AddText ''b'', Backspace, Backspace] = Some s'
     \<and> components s' = [] \<and> block s' = Null \<and> component s' = Null
     \<and> position s' = - 1 / 2 \<and> child s' = - 1 / 2"
  using addText_backspace_round_trip[of "[''a'', ''b'']"] by (simp add: numeral_2_eq_2)

lemma run_typed_a: "run Cursor_new [AddText ''a''] = Some typed_a"
  by code_simp

lemma run_in_sqrt: "run Cursor_new [Insert (OneBlockComponent Sqrt) ''red''] = Some in_sqrt"
  by code_simp

text \<open>
  C10: in every state the editing operations reach, \<open>block\<close> is \<open>null\<close> exactly when
  \<open>component\<close> is \<open>null\<close>.
\<close>

theorem block_null_iff_component_null:
  assumes "list_all valid_op ops" and "run Cursor_new ops = Some s"
  shows "(block s = Null) = (component s = Null)"
  using wf_null_iff[OF reachable_wf[OF assms]] .

theorem block_null_iff_component_null_witness:
  "list_all valid_op [Insert (OneBlockComponent Sqrt) ''red'']
   \<and> run Cursor_new [Insert (OneBlockComponent Sqrt) ''red''] = Some in_sqrt
   \<and> (block in_sqrt = Null) = (component in_sqrt = Null)"
proof -
  have v: "list_all valid_op [Insert (OneBlockComponent Sqrt) ''red'']" by simp
  from block_null_iff_component_null[OF v run_in_sqrt] v run_in_sqrt show ?thesis by simp
qed

text \<open>
  C6 as stated: after every operation both address fields are half-integers. This fails
  for \<open>position\<close>: inserting a square root into the empty editor leaves the cursor in the
  root's Block with \<open>position = 0\<close>, the index of the root.
\<close>

theorem position_whole_inside:
  "run Cursor_new [Insert (OneBlockComponent Sqrt) ''red''] = Some in_sqrt
   \<and> position in_sqrt = 0 \<and> \<not> half_integer (position in_sqrt)"
proof -
  have "position in_sqrt = of_nat 0" by (simp add: in_sqrt_def)
  then have "\<not> half_integer (position in_sqrt)" by (simp only: not_half_integer_nat not_False_eq_True)
  then show ?thesis using run_in_sqrt by (simp add: in_sqrt_def)
qed

text \<open>
  C6, amended: in every state the editing operations reach, \<open>child\<close> is a half-integer;
  \<open>position\<close> is a half-integer while the cursor is at top level (\<open>block\<close> is
  \<open>null\<close>); and while the cursor is inside a Component, \<open>position\<close> is the whole
  number \<open>m\<close> that indexes the enclosing top-level Component: \<open>block\<close> is a Block of
  \<open>component\<close>, and \<open>component\<close> is the Component at index \<open>m\<close> of the top-level array
  or hangs in the tree below it.
\<close>

theorem resting_addresses:
  assumes "list_all valid_op ops" and "run Cursor_new ops = Some s"
  shows "half_integer (child s)
     \<and> (if block s = Null then half_integer (position s)
        else \<not> half_integer (position s)
             \<and> (\<exists>m c b. position s = of_nat m \<and> m < length (components s)
                   \<and> component s = Ref c \<and> block s = Ref b
                   \<and> Ref b \<in> set (blocks (heap s ! c))
                   \<and> attached (heap s) (components s) m c))"
proof -
  note w = reachable_wf[OF assms]
  from w consider m where "at_top s m" | c b j m where "inside s c b j m"
    by (auto simp: wf_def)
  then show ?thesis
  proof cases
    case 1
    then have "block s = Null" by (simp add: at_top_def)
    with wf_addresses[OF w] show ?thesis by simp
  next
    case 2
    then have "position s = of_nat m \<and> m < length (components s)
                   \<and> component s = Ref c \<and> block s = Ref b
                   \<and> Ref b \<in> set (blocks (heap s ! c))
                   \<and> attached (heap s) (components s) m c"
      by (simp add: inside_def)
    then have "\<exists>m c b. position s = of_nat m \<and> m < length (components s)
                   \<and> component s = Ref c \<and> block s = Ref b
                   \<and> Ref b \<in> set (blocks (heap s ! c))
                   \<and> attached (heap s) (components s) m c"
      by blast
    with wf_addresses[OF w] 2 show ?thesis by (simp add: inside_def)
  qed
qed

theorem resting_addresses_witness:
  "list_all valid_op [Insert (OneBlockComponent Sqrt) ''red'']
   \<and> run Cursor_new [Insert (OneBlockComponent Sqrt) ''red''] = Some in_sqrt
   \<and> half_integer (child in_sqrt) \<and> block in_sqrt = Ref 1 \<and> component in_sqrt = Ref 0
   \<and> position in_sqrt = 0 \<and> components in_sqrt ! 0 = Ref 0
   \<and> Ref 1 \<in> set (blocks (heap in_sqrt ! 0))
   \<and> attached (heap in_sqrt) (components in_sqrt) 0 0"
proof -
  have v: "list_all valid_op [Insert (OneBlockComponent Sqrt) ''red'']" by simp
  have f: "block in_sqrt = Ref 1" "component in_sqrt = Ref 0" "position in_sqrt = 0"
    "components in_sqrt ! 0 = Ref 0" by (simp_all add: in_sqrt_def)
  from resting_addresses[OF v run_in_sqrt] f(1) obtain m c b where
    r: "half_integer (child in_sqrt)" "position in_sqrt = of_nat m" "component in_sqrt = Ref c"
      "block in_sqrt = Ref b" "Ref b \<in> set (blocks (heap in_sqrt ! c))"
      "attached (heap in_sqrt) (components in_sqrt) m c"
    by auto
  from r(2,3,4) f have "m = 0" "c = 0" "b = 1" by simp_all
  with r v run_in_sqrt f show ?thesis by simp
qed

text \<open>
  C2 as stated: from every reachable state, seekRight then seekLeft (and the converse)
  restores the cursor, except at a document boundary, where the second call is a no-op.
  At a boundary it is the first call that is the no-op, and the second call moves: with
  the cursor behind the only leaf \<open>a\<close>, seekRight does nothing and seekLeft then steps
  over the leaf to position -0.5.
\<close>

theorem seek_at_right_end:
  "run Cursor_new [AddText ''a''] = Some typed_a
   \<and> seekRight typed_a = Some typed_a
   \<and> seekLeft typed_a = Some (typed_a\<lparr>position := - 1 / 2\<rparr>)
   \<and> position (typed_a\<lparr>position := - 1 / 2\<rparr>) \<noteq> position typed_a"
proof -
  have "seekRight typed_a = Some typed_a" by code_simp
  moreover have "seekLeft typed_a = Some (typed_a\<lparr>position := - 1 / 2\<rparr>)" by code_simp
  moreover have "position (typed_a\<lparr>position := - 1 / 2\<rparr>) \<noteq> position typed_a"
    by (simp add: typed_a_def)
  ultimately show ?thesis using run_typed_a by simp
qed

text \<open>
  A Component inserted by a button that \<open>registerFunction\<close> added has no parent. Inside
  a Block the seeks then take the cursor for being in a top-level Component: from the state
  after such an insertion into the Block of a square root, which is at neither end of the
  document, seekRight followed by seekLeft does not come back, nor does seekLeft followed
  by seekRight.
\<close>

lemma seek_after_parentless_insert:
  "register_insert in_sqrt (OneBlockComponent Sqrt) ''blue'' = Some parentless_in_sqrt
   \<and> - 1 / 2 < position parentless_in_sqrt
   \<and> position parentless_in_sqrt < of_nat (length (components parentless_in_sqrt)) - 1 / 2
   \<and> Option.bind (seekRight parentless_in_sqrt) seekLeft \<noteq> Some parentless_in_sqrt
   \<and> Option.bind (seekLeft parentless_in_sqrt) seekRight \<noteq> Some parentless_in_sqrt"
  by code_simp

text \<open>
  C2, amended: from every state reached by \<open>addText\<close>, \<open>backspace\<close>, \<open>seekLeft\<close>,
  \<open>seekRight\<close> and insertions of a Component constructed with the cursor's Block as its
  parent, seekRight followed by seekLeft returns the very same state (cursor and tree),
  unless the cursor is at the right end of the document, where seekRight is a no-op; and
  seekLeft followed by seekRight returns the same state, unless the cursor is at the left
  end of the document, where seekLeft is a no-op. Neither call changes the store or the
  top-level array.
\<close>

theorem seek_round_trip:
  assumes "list_all valid_op ops" and "run Cursor_new ops = Some s"
  shows "(\<exists>s1. seekRight s = Some s1 \<and> heap s1 = heap s \<and> components s1 = components s
            \<and> (if position s < of_nat (length (components s)) - 1 / 2
                then seekLeft s1 = Some s else s1 = s))
       \<and> (\<exists>s2. seekLeft s = Some s2 \<and> heap s2 = heap s \<and> components s2 = components s
            \<and> (if - 1 / 2 < position s then seekRight s2 = Some s else s2 = s))"
proof -
  have w: "wf s" using reachable_wf[OF assms] .
  from seekRight_step[OF w] obtain s1 where
    s1: "seekRight s = Some s1" "heap s1 = heap s" "components s1 = components s"
      "position s < of_nat (length (components s)) - 1 / 2 \<longrightarrow> seekLeft s1 = Some s"
    by blast
  from seekLeft_step[OF w] obtain s2 where
    s2: "seekLeft s = Some s2" "heap s2 = heap s" "components s2 = components s"
      "- 1 / 2 < position s \<longrightarrow> seekRight s2 = Some s"
    by blast
  have r: "\<not> position s < of_nat (length (components s)) - 1 / 2 \<longrightarrow> s1 = s"
    using seekRight_boundary[of s] s1(1) by auto
  have l: "\<not> - 1 / 2 < position s \<longrightarrow> s2 = s"
    using seekLeft_boundary[of s] s2(1) by auto
  from s1 s2 r l show ?thesis by auto
qed

theorem seek_round_trip_witness:
  "list_all valid_op [AddText ''a''] \<and> run Cursor_new [AddText ''a''] = Some typed_a
   \<and> - 1 / 2 < position typed_a
   \<and> seekLeft typed_a = Some (typed_a\<lparr>position := - 1 / 2\<rparr>)
   \<and> seekRight (typed_a\<lparr>position := - 1 / 2\<rparr>) = Some typed_a"
proof -
  have v: "list_all valid_op [AddText ''a'']" by simp
  have p: "- 1 / 2 < position typed_a" by (simp add: typed_a_def)
  have l: "seekLeft typed_a = Some (typed_a\<lparr>position := - 1 / 2\<rparr>)" by code_simp
  from seek_round_trip[OF v run_typed_a] p l
  have "seekRight (typed_a\<lparr>position := - 1 / 2\<rparr>) = Some typed_a" by auto
  with v p l run_typed_a show ?thesis by simp
qed

lemma wf_with_new:
  assumes "wf s" "leaf_cls k \<or> 0 < arity k"
  shows "wf (s\<lparr>heap := snd (new_Component k p col (heap s))\<rparr>)"
proof -
  let ?H = "snd (new_Component k p col (heap s))"
  let ?s = "s\<lparr>heap := ?H\<rparr>"
  from assms have H: "wf_heap (heap s)" and T: "wf_top (heap s) (components s)"
    by (simp_all add: wf_def)
  have wH: "wf_heap ?H" using wf_heap_new_Component[OF H assms(2)] .
  have old: "length (heap s) \<le> length ?H" "\<forall>x < length (heap s). ?H ! x = heap s ! x"
    by simp_all
  have wT: "wf_top ?H (components s)" using wf_top_ext[OF T old] .
  from assms consider m where "at_top s m" | c b j m where "inside s c b j m"
    by (auto simp: wf_def)
  then show ?thesis
  proof cases
    case 1
    then have "at_top ?s m" by (simp add: at_top_def)
    with wH wT show ?thesis using wf_at_top[of ?s m] by simp
  next
    case 2
    note blk = inside_block[OF H 2]
    have "attached ?H (components s) m c"
      using attached_ext[OF _ old] 2 by (simp add: inside_def)
    then have "inside ?s c b j m" using 2 blk by (simp add: inside_def)
    with wH wT show ?thesis using wf_inside[of ?s c b j m] by simp
  qed
qed

text \<open>
  C4: \<open>addComponent\<close> on a resting cursor, with a Component of the store. The Component is
  inserted in the gap the cursor is in (into the top-level array, or into the children of
  the cursor's Block). For a leaf (symbol or text) \<open>block\<close> and \<open>component\<close> stay as
  they were and the address moves one step on; for any other Component \<open>component\<close> becomes
  the inserted Component, \<open>block\<close> its \<open>blocks[0]\<close> and \<open>child\<close> -0.5.
\<close>

theorem addComponent_effect:
  assumes "wf s" and "n < length (heap s)" and "\<not> is_Block (heap s ! n)"
  shows "\<exists>s'. addComponent s (Ref n) = Some s'
     \<and> (if block s = Null then
          heap s' = heap s
          \<and> (\<exists>m \<le> length (components s). position s = of_nat m - 1 / 2
                \<and> components s' = take m (components s) @ Ref n # drop m (components s))
        else
          components s' = components s
          \<and> (\<exists>b j. block s = Ref b \<and> j \<le> length (children (heap s ! b))
                \<and> child s = of_nat j - 1 / 2
                \<and> children (heap s' ! b) =
                    take j (children (heap s ! b)) @ Ref n # drop j (children (heap s ! b))
                \<and> (\<forall>x < length (heap s). x \<noteq> b \<longrightarrow> heap s' ! x = heap s ! x)))
     \<and> (if leaf_cls (cls (heap s ! n)) then
          block s' = block s \<and> component s' = component s
          \<and> (if block s = Null then position s' = position s + 1 \<and> child s' = child s
              else child s' = child s + 1 \<and> position s' = position s)
        else
          component s' = Ref n \<and> block s' = nth_js (blocks (heap s ! n)) 0
          \<and> child s' = - 1 / 2)"
proof -
  from assms(1) have H: "wf_heap (heap s)" by (simp add: wf_def)
  from assms(1) consider m where "at_top s m" | c b j m where "inside s c b j m"
    by (auto simp: wf_def)
  then show ?thesis
  proof cases
    case 1
    then have f: "block s = Null" "component s = Null" "m \<le> length (components s)"
      "position s = of_nat m - 1 / 2" "child s = - 1 / 2" by (simp_all add: at_top_def)
    have ins: "splice_insert (int m) (Ref n) (components s) =
        take m (components s) @ Ref n # drop m (components s)"
      using splice_insert_nat[OF f(3)] .
    show ?thesis
    proof (cases "leaf_cls (cls (heap s ! n))")
      case True
      from addComponent_top_leaf[OF 1 assms(2,3) True] f ins True show ?thesis by auto
    next
      case False
      from addComponent_top_enter[OF 1 assms(2,3) False] f ins False show ?thesis by auto
    qed
  next
    case 2
    note blk = inside_block[OF H 2]
    note f = inside_fields[OF 2]
    have j: "j \<le> length (children (heap s ! b))" using 2 by (simp add: inside_def)
    let ?chs = "take j (children (heap s ! b)) @ Ref n # drop j (children (heap s ! b))"
    let ?H' = "(heap s)[b := Block ?chs (parent (heap s ! b))]"
    have add: "Block_addChild (heap s) (Ref b) (Ref n) (int j) = Some ?H'"
      using Block_addChild_eq[of b "heap s" "Ref n" "int j"] blk splice_insert_nat[OF j]
      by simp
    have nb: "n \<noteq> b" using blk assms(3) by auto
    have n': "n < length ?H'" "\<not> is_Block (?H' ! n)" "?H' ! n = heap s ! n"
      using assms(2,3) nb by simp_all
    have chs: "children (?H' ! b) = ?chs" using blk by simp
    have oth: "\<forall>x < length (heap s). x \<noteq> b \<longrightarrow> ?H' ! x = heap s ! x" by simp
    show ?thesis
    proof (cases "leaf_cls (cls (heap s ! n))")
      case True
      have "addComponent s (Ref n) = Some (s\<lparr>heap := ?H', child := of_nat (Suc j) - 1 / 2\<rparr>)"
        using addComponent_inside_leaf[OF f(1,3) add n'(1,2)] True n'(3) by simp
      then show ?thesis using f j chs oth True by (auto simp del: list_update_overwrite)
    next
      case False
      have "addComponent s (Ref n) =
          Some (s\<lparr>heap := ?H', component := Ref n, block := nth_js (blocks (?H' ! n)) 0,
                  child := - 1 / 2\<rparr>)"
        using addComponent_inside_enter[OF f(1,3) add n'(1,2)] False n'(3) by simp
      then show ?thesis using f j chs oth False n'(3) by auto
    qed
  qed
qed

theorem addComponent_effect_witness:
  "wf sqrt_built \<and> 2 < length (heap sqrt_built) \<and> \<not> is_Block (heap sqrt_built ! 2)
   \<and> \<not> leaf_cls (cls (heap sqrt_built ! 2)) \<and> block sqrt_built = Null
   \<and> (\<exists>s'. addComponent sqrt_built (Ref 2) = Some s'
        \<and> components s' = [Ref 0, Ref 2]
        \<and> component s' = Ref 2 \<and> block s' = Ref 3 \<and> child s' = - 1 / 2)"
proof -
  have v: "list_all valid_op [AddText ''a'']" by simp
  have w: "wf sqrt_built"
    unfolding sqrt_built_def using wf_with_new[OF reachable_wf[OF v run_typed_a]] by simp
  have n: "2 < length (heap sqrt_built)" "\<not> is_Block (heap sqrt_built ! 2)"
    by (simp_all add: sqrt_built_def typed_a_def new_Component_def)
  have facts: "\<not> leaf_cls (cls (heap sqrt_built ! 2))" "block sqrt_built = Null"
    "position sqrt_built = of_nat 1 - 1 / 2" "components sqrt_built = [Ref 0]"
    "nth_js (blocks (heap sqrt_built ! 2)) 0 = Ref 3"
    by (simp_all add: sqrt_built_def typed_a_def new_Component_def nth_js_def)
  from addComponent_effect[OF w n] obtain s' where
    s': "addComponent sqrt_built (Ref 2) = Some s'"
      "\<exists>m \<le> length (components sqrt_built). position sqrt_built = of_nat m - 1 / 2
          \<and> components s' = take m (components sqrt_built) @ Ref 2 # drop m (components sqrt_built)"
      "component s' = Ref 2" "block s' = nth_js (blocks (heap sqrt_built ! 2)) 0"
      "child s' = - 1 / 2"
    using facts(1,2) by auto
  from s'(2) facts(3,4) have "components s' = [Ref 0, Ref 2]"
    by (auto simp del: of_nat_Suc of_nat_1)
  with w n facts s' show ?thesis by auto
qed

text \<open>
  C5 fails inside a Block. With the cursor in the outer root's Block behind the inner root,
  which holds an \<open>x\<close>, one \<open>backspace\<close> removes the inner root with its content: the
  outer root is not empty, the cursor is not at the left edge, and the last branch calls
  \<open>this.block.removeChild\<close> whatever the child is. (At top level the same key press enters
  the Component instead.)
\<close>

theorem backspace_removes_filled_component:
  "run Cursor_new [Insert (OneBlockComponent Sqrt) ''red'', Insert (OneBlockComponent Sqrt) ''blue'',
                   AddText ''x'', SeekRight] = Some behind_inner_sqrt
   \<and> children_of (heap behind_inner_sqrt) (Ref 1) = Some [Ref 2]
   \<and> \<not> is_leaf (heap behind_inner_sqrt) (Ref 2)
   \<and> Component_isEmpty (heap behind_inner_sqrt) (Ref 2) = Some False
   \<and> map_option (\<lambda>s. children_of (heap s) (Ref 1)) (backspace behind_inner_sqrt) = Some (Some [])"
  by code_simp

subsection \<open>When rendering returns\<close>





subsection \<open>Rendering reads only the objects below\<close>



lemma toLatex_no_object [simp]:
  "toLatex n H Undefined = None" "toLatex n H Null = None" "toLatex n H (Str t) = None"
  by (cases n; simp)+




subsection \<open>The store while the caret is shown\<close>











subsection \<open>What \<open>toDisplayLatex\<close> computes\<close>





subsection \<open>The document after \<open>toDisplayLatex\<close>\<close>






end
